theory Spec2Isabelle
  imports Main "HOL-Library.Sublist" "HOL-Library.Char_ord" "HOL-Library.List_Lexorder"
    "HOL-Library.Product_Lexorder"
begin

section \<open>JavaScript values\<close>

text \<open>
  The values that travel through \<^verbatim>\<open>Storage.js\<close>: what \<^verbatim>\<open>JSON.parse\<close> can build,
  plus \<^verbatim>\<open>undefined\<close>, which a missing property reads as.

  A finite number is \<open>JNum m e\<close>, the number \<open>m \<times> 10\<^sup>e\<close> written with the digits that
  \<^verbatim>\<open>String\<close> prints for it (the shortest that tell the double from its neighbours):
  \<open>m\<close> ends in no zero, and zero is \<open>JNum 0 0\<close>. So \<^verbatim>\<open>1000\<close> is \<open>JNum 1 3\<close> and
  \<^verbatim>\<open>0.5\<close> is \<open>JNum 5 (- 1)\<close>. \<^verbatim>\<open>NaN\<close> and the infinities, which JSON cannot express,
  are not values of the model, nor is the sign of zero.

  A string is a list of 8-bit code units. An object is the list of its own properties
  in the order they were created; JavaScript enumerates integer-like names before the
  others, which the model does not, and which no statement below depends on.
\<close>

datatype jsval =
    JUndefined
  | JNull
  | JBool bool
  | JNum int int
  | JStr string
  | JArr "jsval list"
  | JObj "(string \<times> jsval) list"

text \<open>What a \<^verbatim>\<open>throw\<close> inside a promise callback turns into: a rejected promise.\<close>

datatype error = TypeError

text \<open>The \<^verbatim>\<open>typeof\<close> operator.\<close>

definition typeof :: "jsval \<Rightarrow> string" where
  "typeof v =
     (case v of
        JUndefined \<Rightarrow> ''undefined''
      | JNull \<Rightarrow> ''object''
      | JBool b \<Rightarrow> ''boolean''
      | JNum m e \<Rightarrow> ''number''
      | JStr s \<Rightarrow> ''string''
      | JArr xs \<Rightarrow> ''object''
      | JObj ps \<Rightarrow> ''object'')"

text \<open>\<^verbatim>\<open>if (x)\<close>, \<^verbatim>\<open>!x\<close>, \<^verbatim>\<open>a || b\<close>, \<^verbatim>\<open>a && b\<close> test this.\<close>

fun truthy :: "jsval \<Rightarrow> bool" where
  "truthy JUndefined = False"
| "truthy JNull = False"
| "truthy (JBool b) = b"
| "truthy (JNum m e) = (m \<noteq> 0)"
| "truthy (JStr s) = (s \<noteq> [])"
| "truthy (JArr xs) = True"
| "truthy (JObj ps) = True"

text \<open>
  \<^verbatim>\<open>x.name\<close> for a name that no prototype defines (\<^verbatim>\<open>settings\<close>, \<^verbatim>\<open>accounts\<close>,
  \<^verbatim>\<open>address\<close>, \<^verbatim>\<open>cipher\<close>, \<^verbatim>\<open>pinnedAssetIdList\<close>): a TypeError on \<^verbatim>\<open>null\<close> and
  \<^verbatim>\<open>undefined\<close>, the own property of an object, \<^verbatim>\<open>undefined\<close> everywhere else.
\<close>

fun get_prop :: "jsval \<Rightarrow> string \<Rightarrow> error + jsval" where
  "get_prop JUndefined name = Inl TypeError"
| "get_prop JNull name = Inl TypeError"
| "get_prop (JObj ps) name = (case map_of ps name of None \<Rightarrow> Inr JUndefined | Some v \<Rightarrow> Inr v)"
| "get_prop v name = Inr JUndefined"

text \<open>Assignment to an own property that exists: its place in the enumeration is kept.\<close>

fun set_prop :: "jsval \<Rightarrow> string \<Rightarrow> jsval \<Rightarrow> jsval" where
  "set_prop (JObj ps) name v = JObj (map (\<lambda>(k, w). if k = name then (k, v) else (k, w)) ps)"
| "set_prop u name v = u"

section \<open>\<^verbatim>\<open>JSON.stringify\<close> and \<^verbatim>\<open>String\<close>\<close>

definition hex_digit :: "nat \<Rightarrow> char" where
  "hex_digit n = (if n < 10 then char_of (48 + n) else char_of (87 + n))"

text \<open>
  QuoteJSONString: the quote and the backslash are escaped, the control characters get
  their short form or \<^verbatim>\<open>\u00xx\<close> in lower-case hexadecimal, every other code unit is
  copied.
\<close>

definition quote_char :: "char \<Rightarrow> string" where
  "quote_char c =
     (if c = CHR 0x22 then [CHR 0x5C, CHR 0x22]
      else if c = CHR 0x5C then [CHR 0x5C, CHR 0x5C]
      else if c = CHR 0x08 then [CHR 0x5C, CHR ''b'']
      else if c = CHR 0x0C then [CHR 0x5C, CHR ''f'']
      else if c = CHR 0x0A then [CHR 0x5C, CHR ''n'']
      else if c = CHR 0x0D then [CHR 0x5C, CHR ''r'']
      else if c = CHR 0x09 then [CHR 0x5C, CHR ''t'']
      else if (of_char c :: nat) < 32
        then [CHR 0x5C, CHR ''u'', CHR ''0'', CHR ''0'',
              hex_digit (of_char c div 16), hex_digit (of_char c mod 16)]
      else [c])"

definition quote :: "string \<Rightarrow> string" where
  "quote s = CHR 0x22 # concat (map quote_char s) @ [CHR 0x22]"

fun show_nat :: "nat \<Rightarrow> string" where
  "show_nat n = (if n < 10 then [char_of (48 + n)] else show_nat (n div 10) @ [char_of (48 + n mod 10)])"

declare show_nat.simps [simp del]

text \<open>
  Number::toString in radix 10 (ECMA-262, 6.1.6.1.20) for a number other than zero: with
  \<open>ds\<close> the \<open>k\<close> digits of the number and \<open>n\<close> the place of its decimal point counted
  from the first digit, the number is written in full for \<open>n\<close> from \<open>-5\<close> to \<open>21\<close> and with
  an exponent otherwise, as in \<^verbatim>\<open>1e+21\<close> and \<^verbatim>\<open>1.5e-7\<close>.
\<close>

definition show_exponent :: "int \<Rightarrow> string" where
  "show_exponent x =
     (if x < 0 then CHR ''-'' # show_nat (nat (- x)) else CHR ''+'' # show_nat (nat x))"

definition show_digits :: "string \<Rightarrow> int \<Rightarrow> string" where
  "show_digits ds n =
     (let k = int (length ds) in
      if k \<le> n \<and> n \<le> 21 then ds @ replicate (nat (n - k)) (CHR ''0'')
      else if 0 < n \<and> n \<le> 21 then take (nat n) ds @ CHR ''.'' # drop (nat n) ds
      else if - 6 < n \<and> n \<le> 0 then ''0.'' @ replicate (nat (- n)) (CHR ''0'') @ ds
      else if k = 1 then ds @ CHR ''e'' # show_exponent (n - 1)
      else take 1 ds @ CHR ''.'' # drop 1 ds @ CHR ''e'' # show_exponent (n - 1))"

definition Number_toString :: "int \<Rightarrow> int \<Rightarrow> string" where
  "Number_toString m e =
     (if m = 0 then ''0''
      else
        (let ds = show_nat (nat \<bar>m\<bar>) in
         (if m < 0 then ''-'' else []) @ show_digits ds (e + int (length ds))))"

fun join_comma :: "string list \<Rightarrow> string" where
  "join_comma [] = []"
| "join_comma [x] = x"
| "join_comma (x # y # ys) = x @ CHR '','' # join_comma (y # ys)"

text \<open>
  SerializeJSONProperty without indentation. A property whose value is \<^verbatim>\<open>undefined\<close>
  is left out of an object; an \<^verbatim>\<open>undefined\<close> array element is written \<^verbatim>\<open>null\<close>.
\<close>

fun ser :: "jsval \<Rightarrow> string" where
  "ser JUndefined = ''null''"
| "ser JNull = ''null''"
| "ser (JBool b) = (if b then ''true'' else ''false'')"
| "ser (JNum m e) = Number_toString m e"
| "ser (JStr s) = quote s"
| "ser (JArr xs) = CHR ''['' # join_comma (map ser xs) @ '']''"
| "ser (JObj ps) =
     CHR ''{'' # join_comma (map (\<lambda>(k, v). quote k @ CHR '':'' # ser v)
                               (filter (\<lambda>(k, v). v \<noteq> JUndefined) ps)) @ ''}''"

section \<open>\<^verbatim>\<open>JSON.parse\<close>\<close>

text \<open>
  A recursive-descent reading of the JSON grammar (ECMA-404) on 8-bit text. \<open>None\<close> is
  the SyntaxError. One kind of valid text is outside the model and answered like
  malformed text: a string with a \<^verbatim>\<open>\u\<close> escape above \<^verbatim>\<open>00ff\<close>, whose value is no
  8-bit string.
\<close>

definition is_ws :: "char \<Rightarrow> bool" where
  "is_ws c = (c = CHR 0x20 \<or> c = CHR 0x09 \<or> c = CHR 0x0A \<or> c = CHR 0x0D)"

definition skip_ws :: "string \<Rightarrow> string" where
  "skip_ws = dropWhile is_ws"

definition is_digit :: "char \<Rightarrow> bool" where
  "is_digit c = (48 \<le> (of_char c :: nat) \<and> (of_char c :: nat) \<le> 57)"

definition hex_val :: "char \<Rightarrow> nat option" where
  "hex_val c =
     (let n = (of_char c :: nat) in
      if 48 \<le> n \<and> n \<le> 57 then Some (n - 48)
      else if 97 \<le> n \<and> n \<le> 102 then Some (n - 87)
      else if 65 \<le> n \<and> n \<le> 70 then Some (n - 55)
      else None)"

definition unescape :: "char \<Rightarrow> char option" where
  "unescape e =
     (if e = CHR 0x22 then Some (CHR 0x22)
      else if e = CHR 0x5C then Some (CHR 0x5C)
      else if e = CHR ''/'' then Some (CHR ''/'')
      else if e = CHR ''b'' then Some (CHR 0x08)
      else if e = CHR ''f'' then Some (CHR 0x0C)
      else if e = CHR ''n'' then Some (CHR 0x0A)
      else if e = CHR ''r'' then Some (CHR 0x0D)
      else if e = CHR ''t'' then Some (CHR 0x09)
      else None)"

definition unicode_escape :: "char \<Rightarrow> char \<Rightarrow> char \<Rightarrow> char \<Rightarrow> char option" where
  "unicode_escape a b c d =
     (case (hex_val a, hex_val b, hex_val c, hex_val d) of
        (Some h3, Some h2, Some h1, Some h0) \<Rightarrow>
          if h3 = 0 \<and> h2 = 0 then Some (char_of (16 * h1 + h0)) else None
      | _ \<Rightarrow> None)"

text \<open>The characters of a string literal after its opening quote, up to the closing one.\<close>

fun parse_chars :: "string \<Rightarrow> (string \<times> string) option" where
  "parse_chars [] = None"
| "parse_chars (c # cs) =
     (if c = CHR 0x22 then Some ([], cs)
      else if c = CHR 0x5C then
        (case cs of
           [] \<Rightarrow> None
         | e # r \<Rightarrow>
             if e = CHR ''u'' then
               (case r of
                  h3 # h2 # h1 # h0 # r' \<Rightarrow>
                    (case unicode_escape h3 h2 h1 h0 of
                       None \<Rightarrow> None
                     | Some x \<Rightarrow> map_option (\<lambda>(s, t). (x # s, t)) (parse_chars r'))
                | _ \<Rightarrow> None)
             else
               (case unescape e of
                  None \<Rightarrow> None
                | Some x \<Rightarrow> map_option (\<lambda>(s, t). (x # s, t)) (parse_chars r)))
      else if (of_char c :: nat) < 32 then None
      else map_option (\<lambda>(s, t). (c # s, t)) (parse_chars cs))"

definition digits_val :: "string \<Rightarrow> nat" where
  "digits_val ds = foldl (\<lambda>n c. 10 * n + (of_char c - 48)) 0 ds"

text \<open>
  A number literal: an optional minus, the integer part (\<^verbatim>\<open>0\<close>, or a nonzero digit
  followed by digits: no leading zero), an optional fraction (a point and at least one
  digit), an optional exponent (\<^verbatim>\<open>e\<close> or \<^verbatim>\<open>E\<close>, an optional sign, at least one digit).
\<close>

definition parse_int_part :: "string \<Rightarrow> (string \<times> string) option" where
  "parse_int_part s =
     (case s of
        [] \<Rightarrow> None
      | c # cs \<Rightarrow>
          if c = CHR ''0'' then Some ([c], cs)
          else if is_digit c then Some (takeWhile is_digit s, dropWhile is_digit s)
          else None)"

definition parse_fraction :: "string \<Rightarrow> (string \<times> string) option" where
  "parse_fraction s =
     (case s of
        [] \<Rightarrow> Some ([], s)
      | c # cs \<Rightarrow>
          if c = CHR ''.'' then
            (if takeWhile is_digit cs = [] then None
             else Some (takeWhile is_digit cs, dropWhile is_digit cs))
          else Some ([], s))"

definition parse_exponent :: "string \<Rightarrow> (int \<times> string) option" where
  "parse_exponent s =
     (case s of
        [] \<Rightarrow> Some (0, s)
      | c # cs \<Rightarrow>
          if c = CHR ''e'' \<or> c = CHR ''E'' then
            (let minus = (cs \<noteq> [] \<and> hd cs = CHR ''-'');
                 t = (if cs \<noteq> [] \<and> (hd cs = CHR ''-'' \<or> hd cs = CHR ''+'') then tl cs else cs)
             in
               if takeWhile is_digit t = [] then None
               else Some ((if minus then - int (digits_val (takeWhile is_digit t))
                           else int (digits_val (takeWhile is_digit t))),
                          dropWhile is_digit t))
          else Some (0, s))"

text \<open>
  The number \<open>m \<times> 10\<^sup>e\<close> with the trailing zeros of \<open>m\<close> moved into the exponent: the
  pair that stands for the number.
\<close>

function strip_zeros :: "nat \<Rightarrow> int \<Rightarrow> nat \<times> int" where
  "strip_zeros m e =
     (if m = 0 then (0, 0)
      else if m mod 10 = 0 then strip_zeros (m div 10) (e + 1)
      else (m, e))"
  by pat_completeness auto

termination
  by (relation "measure fst") auto

declare strip_zeros.simps [simp del]

text \<open>
  The literal is read exactly. That is the number \<^verbatim>\<open>JSON.parse\<close> gives whenever the
  literal is the text \<^verbatim>\<open>String\<close> prints for a number, as every number written by
  \<open>ser\<close> is; a literal with more digits than a double holds is rounded by
  \<^verbatim>\<open>JSON.parse\<close> to the nearest double, and is not rounded here.
\<close>

definition parse_unsigned :: "string \<Rightarrow> ((nat \<times> int) \<times> string) option" where
  "parse_unsigned s =
     (case parse_int_part s of
        None \<Rightarrow> None
      | Some (ip, s2) \<Rightarrow>
          (case parse_fraction s2 of
             None \<Rightarrow> None
           | Some (fp, s3) \<Rightarrow>
               (case parse_exponent s3 of
                  None \<Rightarrow> None
                | Some (x, s4) \<Rightarrow>
                    Some (strip_zeros (digits_val (ip @ fp)) (x - int (length fp)), s4))))"

definition parse_number :: "string \<Rightarrow> (jsval \<times> string) option" where
  "parse_number s =
     (case s of
        [] \<Rightarrow> None
      | c # cs \<Rightarrow>
          if c = CHR ''-'' then
            map_option (\<lambda>((m, e), r). (JNum (- int m) e, r)) (parse_unsigned cs)
          else map_option (\<lambda>((m, e), r). (JNum (int m) e, r)) (parse_unsigned s))"

definition strip_prefix :: "string \<Rightarrow> string \<Rightarrow> string option" where
  "strip_prefix p s = (if take (length p) s = p then Some (drop (length p) s) else None)"

text \<open>
  A repeated member name keeps the place of its first occurrence and the value of its
  last one, as the object \<^verbatim>\<open>JSON.parse\<close> builds does. The members stay in the order
  of the text; that JavaScript lists integer-like names ahead of the others is not
  modelled.
\<close>

definition add_member :: "string \<Rightarrow> jsval \<Rightarrow> (string \<times> jsval) list \<Rightarrow> (string \<times> jsval) list" where
  "add_member k v ms =
     (k, (case map_of ms k of None \<Rightarrow> v | Some w \<Rightarrow> w)) # filter (\<lambda>(k', w). k' \<noteq> k) ms"

text \<open>
  \<open>parse_value\<close> reads one value after optional white space; \<open>parse_elements\<close> reads
  the elements of a non-empty array up to its bracket; \<open>parse_members\<close> the members of
  a non-empty object up to its brace. The length tests before the recursive calls are
  always passed (\<open>parse_elements_untested\<close> and \<open>parse_members_untested\<close> below);
  they are what makes the recursion visibly terminating.
\<close>

function parse_value :: "string \<Rightarrow> (jsval \<times> string) option"
  and parse_elements :: "string \<Rightarrow> (jsval list \<times> string) option"
  and parse_members :: "string \<Rightarrow> ((string \<times> jsval) list \<times> string) option"
where
  "parse_value s =
     (case skip_ws s of
        [] \<Rightarrow> None
      | c # cs \<Rightarrow>
          if c = CHR ''{'' then
            (case skip_ws cs of
               [] \<Rightarrow> None
             | d # r \<Rightarrow>
                 if d = CHR ''}'' then Some (JObj [], r)
                 else map_option (\<lambda>(ms, t). (JObj ms, t)) (parse_members cs))
          else if c = CHR ''['' then
            (case skip_ws cs of
               [] \<Rightarrow> None
             | d # r \<Rightarrow>
                 if d = CHR '']'' then Some (JArr [], r)
                 else map_option (\<lambda>(vs, t). (JArr vs, t)) (parse_elements cs))
          else if c = CHR 0x22 then map_option (\<lambda>(x, t). (JStr x, t)) (parse_chars cs)
          else if c = CHR ''t'' then map_option (\<lambda>t. (JBool True, t)) (strip_prefix ''true'' (c # cs))
          else if c = CHR ''f'' then map_option (\<lambda>t. (JBool False, t)) (strip_prefix ''false'' (c # cs))
          else if c = CHR ''n'' then map_option (\<lambda>t. (JNull, t)) (strip_prefix ''null'' (c # cs))
          else parse_number (c # cs))"
| "parse_elements s =
     (case parse_value s of
        None \<Rightarrow> None
      | Some (v, r) \<Rightarrow>
          (case skip_ws r of
             [] \<Rightarrow> None
           | d # r' \<Rightarrow>
               if d = CHR '','' then
                 (if length r' < length s
                  then map_option (\<lambda>(vs, t). (v # vs, t)) (parse_elements r')
                  else None)
               else if d = CHR '']'' then Some ([v], r')
               else None))"
| "parse_members s =
     (case skip_ws s of
        [] \<Rightarrow> None
      | c # cs \<Rightarrow>
          if c \<noteq> CHR 0x22 then None
          else
            (case parse_chars cs of
               None \<Rightarrow> None
             | Some (k, r) \<Rightarrow>
                 (case skip_ws r of
                    [] \<Rightarrow> None
                  | d # r1 \<Rightarrow>
                      if d \<noteq> CHR '':'' \<or> \<not> length r1 < length s then None
                      else
                        (case parse_value r1 of
                           None \<Rightarrow> None
                         | Some (v, r2) \<Rightarrow>
                             (case skip_ws r2 of
                                [] \<Rightarrow> None
                              | e # r3 \<Rightarrow>
                                  if e = CHR '','' then
                                    (if length r3 < length s
                                     then map_option (\<lambda>(ms, t). (add_member k v ms, t))
                                            (parse_members r3)
                                     else None)
                                  else if e = CHR ''}'' then Some ([(k, v)], r3)
                                  else None)))))"
  by pat_completeness auto

termination
proof -
  have shorter: "length cs < length s" if "skip_ws s = c # cs" for s c cs
    using that length_dropWhile_le [of is_ws s] by (simp add: skip_ws_def)
  show ?thesis
    by (relation "measure (\<lambda>x. case x of
            Inl s \<Rightarrow> 2 * length s
          | Inr (Inl s) \<Rightarrow> 2 * length s + 1
          | Inr (Inr s) \<Rightarrow> 2 * length s + 1)")
       (auto dest: shorter)
qed

declare parse_value.simps [simp del] parse_elements.simps [simp del] parse_members.simps [simp del]

text \<open>\<^verbatim>\<open>JSON.parse(text)\<close>: one value, then nothing but white space.\<close>

definition JSON_parse :: "string \<Rightarrow> jsval option" where
  "JSON_parse s =
     (case parse_value s of
        None \<Rightarrow> None
      | Some (v, r) \<Rightarrow> if skip_ws r = [] then Some v else None)"

text \<open>
  A JSON-serializable value: no \<^verbatim>\<open>undefined\<close> anywhere in it, the member names of
  each object distinct, as the property names of an object are, and each number given
  by the one pair that stands for it.
\<close>

fun serializable :: "jsval \<Rightarrow> bool" where
  "serializable JUndefined = False"
| "serializable (JNum m e) = (if m = 0 then e = 0 else m mod 10 \<noteq> 0)"
| "serializable (JArr xs) = list_all serializable xs"
| "serializable (JObj ps) = (distinct (map fst ps) \<and> list_all (\<lambda>(k, v). serializable v) ps)"
| "serializable v = True"

text \<open>The characters a serialized value can begin with.\<close>

definition value_start :: "char \<Rightarrow> bool" where
  "value_start c =
     (is_digit c \<or> c = CHR ''-'' \<or> c = CHR 0x22 \<or> c = CHR ''['' \<or> c = CHR ''{'' \<or>
      c = CHR ''t'' \<or> c = CHR ''f'' \<or> c = CHR ''n'')"

text \<open>
  What can follow a number in a text without being read as more of it: the end of the
  text, or a character that is no digit, point or exponent mark.
\<close>

definition number_end :: "string \<Rightarrow> bool" where
  "number_end rest =
     (case rest of
        [] \<Rightarrow> True
      | c # cs \<Rightarrow> \<not> is_digit c \<and> c \<noteq> CHR ''.'' \<and> c \<noteq> CHR ''e'' \<and> c \<noteq> CHR ''E'')"

section \<open>The storage adapter (browser branch)\<close>

text \<open>
  The file chooses its backend once, at line 10. What follows is the branch taken when
  \<^verbatim>\<open>WavesApp.isWeb()\<close> holds (lines 11 to 58): \<^verbatim>\<open>read\<close>, \<^verbatim>\<open>write\<close> and \<^verbatim>\<open>clear\<close> act
  on \<^verbatim>\<open>localStorage\<close> at once and hand back a promise that is already settled. In the
  other branch (lines 59 to 74) the three hand the operation to \<^verbatim>\<open>WebStorage\<close>, a
  bridge that is not among the sources and whose promise settles later; that branch is
  not modelled, and every statement below that involves the backend is about the
  browser branch only.

  \<^verbatim>\<open>localStorage\<close>, the browser's or the in-memory substitute of lines 14 to 38: both
  answer \<^verbatim>\<open>getItem\<close> with the string last set under the key, or \<^verbatim>\<open>null\<close>.
\<close>

type_synonym localStorage = "string \<rightharpoonup> string"

definition getItem :: "localStorage \<Rightarrow> string \<Rightarrow> string option" where
  "getItem ls name = ls name"

definition setItem :: "localStorage \<Rightarrow> string \<Rightarrow> string \<Rightarrow> localStorage" where
  "setItem ls name v = ls(name \<mapsto> v)"

text \<open>
  \<^verbatim>\<open>read\<close> (lines 43 to 50). \<^verbatim>\<open>JSON.parse\<close> turns its argument into a string first, so
  the \<^verbatim>\<open>null\<close> of a missing key is parsed as the text \<^verbatim>\<open>null\<close>. When the parse
  throws, the raw data is the answer.
\<close>

definition read :: "localStorage \<Rightarrow> string \<Rightarrow> jsval" where
  "read ls key =
     (let data = getItem ls key in
      case JSON_parse (case data of None \<Rightarrow> ''null'' | Some s \<Rightarrow> s) of
        Some v \<Rightarrow> v
      | None \<Rightarrow> (case data of None \<Rightarrow> JNull | Some s \<Rightarrow> JStr s))"

text \<open>
  \<^verbatim>\<open>write\<close> of the browser branch (lines 51 to 54), under a name that is free here:
  the item is set before \<^verbatim>\<open>write\<close> returns.
\<close>

definition write_item :: "localStorage \<Rightarrow> string \<Rightarrow> string \<Rightarrow> localStorage" where
  "write_item ls key v = setItem ls key v"

text \<open>
  \<^verbatim>\<open>String(data)\<close>, the conversion to a string: an array joins its elements with
  commas, \<^verbatim>\<open>null\<close> and \<^verbatim>\<open>undefined\<close> elements as the empty string.
\<close>

fun to_String :: "jsval \<Rightarrow> string" where
  "to_String JUndefined = ''undefined''"
| "to_String JNull = ''null''"
| "to_String (JBool b) = (if b then ''true'' else ''false'')"
| "to_String (JNum m e) = Number_toString m e"
| "to_String (JStr s) = s"
| "to_String (JArr xs) =
     join_comma (map (\<lambda>x. if x = JUndefined \<or> x = JNull then [] else to_String x) xs)"
| "to_String (JObj ps) = ''[object Object]''"

text \<open>
  \<^verbatim>\<open>Storage.stringify\<close> (lines 184 to 197): a string goes through as it is; what
  \<^verbatim>\<open>typeof\<close> calls an object (\<^verbatim>\<open>null\<close>, arrays, objects) through \<^verbatim>\<open>JSON.stringify\<close>,
  which cannot throw on the acyclic values of \<open>jsval\<close>, so the \<^verbatim>\<open>catch\<close> is never
  entered; everything else through \<^verbatim>\<open>String(data)\<close>, here \<open>to_String\<close>. In the
  first branch \<open>data\<close> is a string, so the inner match always takes its first case.
\<close>

definition stringify :: "jsval \<Rightarrow> string" where
  "stringify data =
     (if typeof data = ''string'' then (case data of JStr s \<Rightarrow> s | _ \<Rightarrow> [])
      else if typeof data = ''object'' then ser data
      else to_String data)"

text \<open>
  What can be observed of a run, in the order it happens: the writes and wipes of the
  backend, the start and the settling of each migration step, and the resolution of the
  readiness promise.
\<close>

datatype event =
    Saved string string
  | Cleared
  | Started string
  | Settled string "error option"
  | Resolved jsval

text \<open>
  The \<^verbatim>\<open>Storage\<close> instance and what it touches: the backend, the deferred
  \<^verbatim>\<open>_isNewDefer\<close> (\<open>None\<close> while pending), and \<^verbatim>\<open>state.lastOpenVersion\<close>.
\<close>

record world =
  storage :: localStorage
  isNewDefer :: "jsval option"
  lastOpenVersion :: jsval
  trace :: "event list"

definition save :: "world \<Rightarrow> string \<Rightarrow> jsval \<Rightarrow> world" where
  "save w key v =
     w\<lparr>storage := write_item (storage w) key (stringify v),
       trace := trace w @ [Saved key (stringify v)]\<rparr>"

definition load :: "world \<Rightarrow> string \<Rightarrow> jsval" where
  "load w key = read (storage w) key"

definition clear :: "world \<Rightarrow> world" where
  "clear w = w\<lparr>storage := Map.empty, trace := trace w @ [Cleared]\<rparr>"

text \<open>A deferred settles once: resolving it again changes nothing.\<close>

definition resolve :: "jsval \<Rightarrow> world \<Rightarrow> world" where
  "resolve v w =
     (case isNewDefer w of
        None \<Rightarrow> w\<lparr>isNewDefer := Some v, trace := trace w @ [Resolved v]\<rparr>
      | Some u \<Rightarrow> w)"

definition onReady :: "world \<Rightarrow> jsval option" where
  "onReady w = isNewDefer w"

section \<open>The migration steps\<close>

text \<open>
  What the file takes from outside: \<^verbatim>\<open>WavesApp.version\<close>, the two gateway asset ids,
  \<^verbatim>\<open>tsUtils.set\<close> and \<^verbatim>\<open>tsUtils.unset\<close> (each gives the item as it has changed
  it, or throws), and \<^verbatim>\<open>migration.migrateFrom\<close>.
\<close>

record env =
  version :: string
  DASH :: string
  XMR :: string
  ts_set :: "jsval \<Rightarrow> string \<Rightarrow> jsval \<Rightarrow> error + jsval"
  ts_unset :: "jsval \<Rightarrow> string \<Rightarrow> error + jsval"
  migrateFrom :: "jsval \<Rightarrow> string list \<Rightarrow> string list"

text \<open>\<^verbatim>\<open>xs.map(f)\<close> with a callback that may throw: the first throw ends the loop.\<close>

fun map_throwing :: "('a \<Rightarrow> error + 'b) \<Rightarrow> 'a list \<Rightarrow> error + 'b list" where
  "map_throwing f [] = Inr []"
| "map_throwing f (x # xs) =
     (case f x of
        Inl e \<Rightarrow> Inl e
      | Inr y \<Rightarrow> (case map_throwing f xs of Inl e \<Rightarrow> Inl e | Inr ys \<Rightarrow> Inr (y # ys)))"

text \<open>A parameter default, \<^verbatim>\<open>(list = [])\<close>: it replaces \<^verbatim>\<open>undefined\<close> and nothing else.\<close>

definition default_arg :: "jsval \<Rightarrow> jsval \<Rightarrow> jsval" where
  "default_arg v d = (if v = JUndefined then d else v)"

definition convert_account :: "jsval \<Rightarrow> error + jsval" where
  "convert_account account =
     (case get_prop account ''address'' of
        Inl e \<Rightarrow> Inl e
      | Inr address \<Rightarrow>
          (case get_prop account ''cipher'' of
             Inl e \<Rightarrow> Inl e
           | Inr cipher \<Rightarrow>
               Inr (JObj [(''address'', address), (''encryptedSeed'', cipher),
                          (''settings'', JObj [(''encryptionRounds'', JNum 1 3)])])))"

text \<open>
  The step \<^verbatim>\<open>'1.0.0'\<close> (lines 86 to 103). \<open>Inl\<close> is the rejected promise, \<open>Inr\<close> the
  fulfilled one with the world it leaves. In every step each throw comes before the
  step's first write, so a rejected step leaves the backend as it found it.
\<close>

definition migrate_1_0_0 :: "world \<Rightarrow> error + world" where
  "migrate_1_0_0 w =
     (let data = load w ''Wavesmainnet'' in
      if \<not> truthy data then Inr w
      else
        (case get_prop data ''accounts'' of
           Inl e \<Rightarrow> Inl e
         | Inr accounts \<Rightarrow>
             (case accounts of
                JArr as \<Rightarrow>
                  (case map_throwing convert_account as of
                     Inl e \<Rightarrow> Inl e
                   | Inr userList \<Rightarrow> Inr (save (clear w) ''userList'' (JArr userList)))
              | _ \<Rightarrow> Inl TypeError)))"

text \<open>The steps \<^verbatim>\<open>'1.0.0-beta.23'\<close> (lines 104 to 112) and \<^verbatim>\<open>'1.0.0-beta.47'\<close> (119 to 127).\<close>

definition migrate_beta_23 :: "env \<Rightarrow> world \<Rightarrow> error + world" where
  "migrate_beta_23 E w =
     (case default_arg (load w ''userList'') (JArr []) of
        JArr items \<Rightarrow>
          (case map_throwing
                  (\<lambda>item. ts_set E item ''settings.lastOpenVersion'' (JStr ''1.0.0-beta.22''))
                  items of
             Inl e \<Rightarrow> Inl e
           | Inr newList \<Rightarrow> Inr (save w ''userList'' (JArr newList)))
      | _ \<Rightarrow> Inl TypeError)"

definition migrate_beta_47 :: "env \<Rightarrow> world \<Rightarrow> error + world" where
  "migrate_beta_47 E w =
     (case default_arg (load w ''userList'') (JArr []) of
        JArr items \<Rightarrow>
          (case map_throwing (\<lambda>item. ts_unset E item ''settings.dex'') items of
             Inl e \<Rightarrow> Inl e
           | Inr result \<Rightarrow> Inr (save w ''userList'' (JArr result)))
      | _ \<Rightarrow> Inl TypeError)"

text \<open>
  \<^verbatim>\<open>idList.includes(gateway)\<close> and \<^verbatim>\<open>idList.push(gateway)\<close> for a truthy \<^verbatim>\<open>idList\<close>:
  an array has both; a string has \<^verbatim>\<open>includes\<close> (the substring test) and no
  \<^verbatim>\<open>push\<close>; a number, \<^verbatim>\<open>true\<close> and an object have neither, and the call throws.
\<close>

definition array_includes :: "jsval \<Rightarrow> string \<Rightarrow> error + bool" where
  "array_includes idList gateway =
     (case idList of
        JArr xs \<Rightarrow> Inr (JStr gateway \<in> set xs)
      | JStr s \<Rightarrow> Inr (sublist gateway s)
      | _ \<Rightarrow> Inl TypeError)"

definition array_push :: "jsval \<Rightarrow> string \<Rightarrow> error + jsval" where
  "array_push idList gateway =
     (case idList of
        JArr xs \<Rightarrow> Inr (JArr (xs @ [JStr gateway]))
      | _ \<Rightarrow> Inl TypeError)"

text \<open>
  The body of the \<^verbatim>\<open>forEach\<close> in \<^verbatim>\<open>addNewGateway\<close> (lines 132 to 138), giving the user
  record as the body leaves it. The pushed array is the one the record holds under
  \<^verbatim>\<open>settings.pinnedAssetIdList\<close>.
\<close>

definition addNewGateway_user :: "string \<Rightarrow> jsval \<Rightarrow> error + jsval" where
  "addNewGateway_user gateway user =
     (case get_prop user ''settings'' of
        Inl e \<Rightarrow> Inl e
      | Inr s \<Rightarrow>
          (let settings = (if truthy s then s else JObj []) in
           case get_prop settings ''pinnedAssetIdList'' of
             Inl e \<Rightarrow> Inl e
           | Inr idList \<Rightarrow>
               if truthy idList then
                 (case array_includes idList gateway of
                    Inl e \<Rightarrow> Inl e
                  | Inr True \<Rightarrow> Inr user
                  | Inr False \<Rightarrow>
                      (case array_push idList gateway of
                         Inl e \<Rightarrow> Inl e
                       | Inr idList' \<Rightarrow>
                           Inr (set_prop user ''settings''
                                  (set_prop settings ''pinnedAssetIdList'' idList'))))
               else Inr user))"

text \<open>
  The pinned-asset list of a user record as that body reads it:
  \<^verbatim>\<open>(user.settings || Object.create(null)).pinnedAssetIdList\<close>.
\<close>

definition pinnedAssetIdList :: "jsval \<Rightarrow> error + jsval" where
  "pinnedAssetIdList user =
     (case get_prop user ''settings'' of
        Inl e \<Rightarrow> Inl e
      | Inr s \<Rightarrow> get_prop (if truthy s then s else JObj []) ''pinnedAssetIdList'')"

definition addNewGateway :: "world \<Rightarrow> string \<Rightarrow> error + world" where
  "addNewGateway w gateway =
     (case default_arg (load w ''userList'') (JArr []) of
        JArr users \<Rightarrow>
          (case map_throwing (addNewGateway_user gateway) users of
             Inl e \<Rightarrow> Inl e
           | Inr users' \<Rightarrow> Inr (save w ''userList'' (JArr users')))
      | _ \<Rightarrow> Inl TypeError)"

text \<open>\<^verbatim>\<open>MIGRATION_MAP\<close> (lines 85 to 128), in the order \<^verbatim>\<open>Object.keys\<close> lists it.\<close>

definition MIGRATION_MAP :: "env \<Rightarrow> (string \<times> (world \<Rightarrow> error + world)) list" where
  "MIGRATION_MAP E =
     [(''1.0.0'', migrate_1_0_0),
      (''1.0.0-beta.23'', migrate_beta_23 E),
      (''1.0.0-beta.35'', \<lambda>w. addNewGateway w (DASH E)),
      (''1.0.0-beta.40'', \<lambda>w. addNewGateway w (XMR E)),
      (''1.0.0-beta.47'', migrate_beta_47 E)]"

section \<open>The migration runner\<close>

text \<open>
  A promise-returning call on the world: \<open>None\<close> when the promise fulfils, \<open>Some e\<close>
  when it rejects.
\<close>

type_synonym action = "world \<Rightarrow> error option \<times> world"

text \<open>
  Modelled from the spec: \<^verbatim>\<open>utils.chainCall\<close>, which is not among the sources. Section
  4.2: the functions run sequentially, ``one at a time'', each returning a promise, and
  ``any step rejecting aborts the remaining migration chain''; section 5: ``one step's
  promise must settle before the next begins''.
\<close>

fun chainCall :: "action list \<Rightarrow> action" where
  "chainCall [] w = (None, w)"
| "chainCall (f # fs) w =
     (case f w of
        (None, w') \<Rightarrow> chainCall fs w'
      | (Some e, w') \<Rightarrow> (Some e, w'))"

text \<open>
  \<^verbatim>\<open>MIGRATION_MAP[version].bind(null, this)\<close>, once called: the step runs on the
  storage, and its start and its settling are recorded.
\<close>

definition bound :: "string \<Rightarrow> (world \<Rightarrow> error + world) \<Rightarrow> action" where
  "bound name f w =
     (let w1 = w\<lparr>trace := trace w @ [Started name]\<rparr> in
      case f w1 of
        Inl e \<Rightarrow> (Some e, w1\<lparr>trace := trace w1 @ [Settled name (Some e)]\<rparr>)
      | Inr w2 \<Rightarrow> (None, w2\<lparr>trace := trace w2 @ [Settled name None]\<rparr>))"

text \<open>
  \<^verbatim>\<open>versions.map((version) => MIGRATION_MAP[version].bind(null, this))\<close>: a version
  that is not a key of the map makes \<^verbatim>\<open>.bind\<close> throw before any step has run.
\<close>

fun bind_all :: "(string \<times> (world \<Rightarrow> error + world)) list \<Rightarrow> string list \<Rightarrow> action list option" where
  "bind_all m [] = Some []"
| "bind_all m (v # vs) =
     (case map_of m v of
        None \<Rightarrow> None
      | Some f \<Rightarrow> (case bind_all m vs of None \<Rightarrow> None | Some fs \<Rightarrow> Some (bound v f # fs)))"



text \<open>
  The body of the constructor (lines 146 to 165) on a backend \<open>ls\<close>, with the
  \<^verbatim>\<open>MIGRATION_MAP\<close> in scope as \<open>m\<close>. The deferred is new, so pending. In the browser
  branch \<^verbatim>\<open>write\<close> has set the item when \<^verbatim>\<open>save\<close> returns, before the next statement.
\<close>

definition new_world :: "localStorage \<Rightarrow> world" where
  "new_world ls = \<lparr>storage = ls, isNewDefer = None, lastOpenVersion = JUndefined, trace = []\<rparr>"

definition constructor ::
  "(string \<times> (world \<Rightarrow> error + world)) list \<Rightarrow> env \<Rightarrow> localStorage \<Rightarrow> world" where
  "constructor m E ls =
     (let w0 = new_world ls;
          v = load w0 ''lastVersion'';
          w1 = save w0 ''lastVersion'' (JStr (version E));
          w2 = w1\<lparr>lastOpenVersion := v\<rparr>
      in
        if truthy v then
          (case bind_all m (migrateFrom E v (map fst m)) of
             None \<Rightarrow> w2
           | Some fs \<Rightarrow>
               (case chainCall fs w2 of
                  (None, w3) \<Rightarrow> resolve v w3
                | (Some e, w3) \<Rightarrow> w3))
        else resolve v w2)"

section \<open>Reading a trace\<close>

definition rejected :: "event \<Rightarrow> bool" where
  "rejected ev = (case ev of Settled name (Some e) \<Rightarrow> True | _ \<Rightarrow> False)"

definition step_event :: "event \<Rightarrow> bool" where
  "step_event ev = (case ev of Started name \<Rightarrow> True | Settled name r \<Rightarrow> True | _ \<Rightarrow> False)"


text \<open>The names of the steps that were started, in the order they were started.\<close>

fun started :: "event list \<Rightarrow> string list" where
  "started [] = []"
| "started (Started name # evs) = name # started evs"
| "started (ev # evs) = started evs"

text \<open>The step events of a run in which each of the given steps starts and then fulfils.\<close>

fun fulfilled_run :: "string list \<Rightarrow> event list" where
  "fulfilled_run [] = []"
| "fulfilled_run (name # names) = Started name # Settled name None # fulfilled_run names"

text \<open>
  One step at a time: a step starts only while no step is running, and the step that
  settles is the one that is running. The first argument is the running step.
\<close>

fun one_at_a_time :: "string option \<Rightarrow> event list \<Rightarrow> bool" where
  "one_at_a_time cur [] = (cur = None)"
| "one_at_a_time cur (Started name # evs) = (cur = None \<and> one_at_a_time (Some name) evs)"
| "one_at_a_time cur (Settled name r # evs) = (cur = Some name \<and> one_at_a_time None evs)"
| "one_at_a_time cur (ev # evs) = one_at_a_time cur evs"

text \<open>The backend after the writes and wipes of a trace, from the backend before them.\<close>

fun replay :: "event list \<Rightarrow> localStorage \<Rightarrow> localStorage" where
  "replay [] ls = ls"
| "replay (Saved key v # evs) ls = replay evs (ls(key \<mapsto> v))"
| "replay (Cleared # evs) ls = replay evs Map.empty"
| "replay (ev # evs) ls = replay evs ls"

text \<open>
  What the five steps have in common: a step that fulfils has only written
  \<^verbatim>\<open>userList\<close> or wiped the backend, and has wiped it only when the legacy key read
  as a truthy value; it has left the deferred alone.
\<close>

definition step_write :: "event \<Rightarrow> bool" where
  "step_write ev = (case ev of Saved key v \<Rightarrow> key = ''userList'' | Cleared \<Rightarrow> True | _ \<Rightarrow> False)"

definition quiet :: "(world \<Rightarrow> error + world) \<Rightarrow> bool" where
  "quiet f =
     (\<forall>w w'. f w = Inr w' \<longrightarrow>
        isNewDefer w' = isNewDefer w \<and>
        (\<exists>evs. trace w' = trace w @ evs \<and> list_all step_write evs \<and>
               storage w' = replay evs (storage w) \<and>
               (Cleared \<in> set evs \<longrightarrow> truthy (read (storage w) ''Wavesmainnet''))))"


section \<open>The version comparison\<close>

text \<open>
  Modelled from the spec: \<^verbatim>\<open>migration.migrateFrom\<close>, which is not among the sources.
  Section 8: the steps to run are ``exactly the steps strictly newer than'' the prior
  version, ``in ascending order''. Section 4.2 bounds them by the current version as
  well; the registered steps belong to versions older than the running one, so that
  bound excludes none of them and is left out. The order of versions is a parameter:
  \<open>precedence\<close> maps a version tag into a linear order.
\<close>

definition migrateFrom_spec :: "(string \<Rightarrow> 'a::linorder) \<Rightarrow> string \<Rightarrow> string list \<Rightarrow> string list" where
  "migrateFrom_spec precedence from versions =
     sort_key precedence (filter (\<lambda>v. precedence from < precedence v) versions)"

fun split_on :: "char \<Rightarrow> string \<Rightarrow> string list" where
  "split_on sep [] = [[]]"
| "split_on sep (c # cs) =
     (if c = sep then [] # split_on sep cs
      else (case split_on sep cs of [] \<Rightarrow> [[c]] | p # ps \<Rightarrow> (c # p) # ps))"

definition prerelease_id :: "string \<Rightarrow> bool \<times> nat \<times> string" where
  "prerelease_id s =
     (if s \<noteq> [] \<and> list_all is_digit s then (False, digits_val s, []) else (True, 0, s))"

text \<open>
  Modelled from the spec: the ``semantic-version comparison collaborator'', as the
  precedence of Semantic Versioning 2.0.0 on tags \<^verbatim>\<open>major.minor.patch\<close> and
  \<^verbatim>\<open>major.minor.patch-pre.release\<close>: the numbers compare first; a pre-release is older
  than its release; pre-release identifiers compare left to right, a numeric one by
  value and below an alphanumeric one, which compares as text. The triple is compared
  lexicographically.
\<close>

definition semver :: "string \<Rightarrow> nat list \<times> bool \<times> (bool \<times> nat \<times> string) list" where
  "semver v =
     (let core = takeWhile (\<lambda>c. c \<noteq> CHR ''-'') v;
          pre = dropWhile (\<lambda>c. c \<noteq> CHR ''-'') v
      in (map digits_val (split_on (CHR ''.'') core),
          pre = [],
          map prerelease_id (split_on (CHR ''.'') (drop 1 pre))))"

section \<open>An example installation\<close>

text \<open>
  An environment for the worked examples: the application is at \<^verbatim>\<open>1.0.1\<close>, newer
  than every registered step; \<^verbatim>\<open>migrateFrom\<close> is the one modelled above with the
  semantic-version precedence; and the two \<^verbatim>\<open>tsUtils\<close> calls, which the examples are
  not about, hand the item back.
\<close>

definition example_env :: env where
  "example_env =
     \<lparr>version = ''1.0.1'',
      DASH = ''B3uGHFRpSUuGEDWjqB9LWWxafQj8VTvpMucEyoxzws5H'',
      XMR = ''5WvPKSJXzVE2orvbkJ8wsQmmQKqTv9sGBPksV4adViw3'',
      ts_set = (\<lambda>item path v. Inr item),
      ts_unset = (\<lambda>item path. Inr item),
      migrateFrom = (\<lambda>v versions. case v of JStr from \<Rightarrow> migrateFrom_spec semver from versions
                                    | _ \<Rightarrow> [])\<rparr>"

text \<open>
  Four backends: one an older beta has used, with an empty user list; the same
  without a user list; the same with one user who has pinned no asset yet; and one
  that still holds the legacy account list.
\<close>

definition upgrade_backend :: localStorage where
  "upgrade_backend = [''lastVersion'' \<mapsto> ''1.0.0-beta.20'', ''userList'' \<mapsto> ''[]'']"

definition no_users_backend :: localStorage where
  "no_users_backend = [''lastVersion'' \<mapsto> ''1.0.0-beta.20'']"



section \<open>Properties of the storage adapter\<close>

lemma JSON_parse_null: "JSON_parse ''null'' = Some JNull"
  by code_simp

lemma load_missing: "storage w k = None \<Longrightarrow> load w k = JNull"
  by (simp add: load_def read_def getItem_def JSON_parse_null)

lemma load_stored:
  "storage w k = Some s \<Longrightarrow> load w k = (case JSON_parse s of Some v \<Rightarrow> v | None \<Rightarrow> JStr s)"
  by (simp add: load_def read_def getItem_def split: option.splits)

lemma stringify_string [simp]: "stringify (JStr s) = s"
  by (simp add: stringify_def typeof_def)

lemma storage_save [simp]: "storage (save w k v) = (storage w)(k \<mapsto> stringify v)"
  by (simp add: save_def write_item_def setItem_def)

lemma trace_save [simp]: "trace (save w k v) = trace w @ [Saved k (stringify v)]"
  by (simp add: save_def)

lemma isNewDefer_save [simp]: "isNewDefer (save w k v) = isNewDefer w"
  by (simp add: save_def)

lemma storage_clear [simp]: "storage (clear w) = Map.empty"
  by (simp add: clear_def)

lemma trace_clear [simp]: "trace (clear w) = trace w @ [Cleared]"
  by (simp add: clear_def)

lemma isNewDefer_clear [simp]: "isNewDefer (clear w) = isNewDefer w"
  by (simp add: clear_def)

text \<open>
  C7. A string that is not valid JSON comes back from \<open>load\<close> as it was saved, for
  every key; and whatever put such a text under the key, \<open>load\<close> answers with the raw
  text: the failed decode is absorbed, \<open>load\<close> has no failing outcome.
\<close>

theorem save_load_non_json_string:
  assumes "JSON_parse s = None"
  shows "load (save w k (JStr s)) k = JStr s \<and>
         load (w\<lparr>storage := (storage w)(k \<mapsto> s)\<rparr>) k = JStr s"
  using assms by (simp add: load_stored)

theorem save_load_non_json_string_witness:
  "JSON_parse ''1.0.1'' = None \<and>
   load (save (new_world Map.empty) ''lastVersion'' (JStr ''1.0.1'')) ''lastVersion''
     = JStr ''1.0.1''"
proof -
  have h: "JSON_parse ''1.0.1'' = None" by code_simp
  from save_load_non_json_string [OF h, of "new_world Map.empty" "''lastVersion''"] h
  show ?thesis by simp
qed

text \<open>
  C9. \<open>clear\<close> leaves the backend without any key, and \<open>load\<close> of any key afterwards,
  a key saved before included, gives \<^verbatim>\<open>null\<close>.
\<close>

theorem clear_erases_all_keys:
  "storage (clear w) = Map.empty \<and> load (clear w) k = JNull \<and>
   load (clear (save w k v)) k = JNull"
  by (simp add: load_missing)

text \<open>
  C10. When the legacy key \<^verbatim>\<open>Wavesmainnet\<close> loads as a falsy value, the step
  \<^verbatim>\<open>'1.0.0'\<close> fulfils and leaves the world exactly as it was: the same backend, and no
  write and no wipe in the trace.
\<close>

theorem migrate_1_0_0_without_legacy_data:
  assumes "\<not> truthy (load w ''Wavesmainnet'')"
  shows "migrate_1_0_0 w = Inr w"
  using assms by (simp add: migrate_1_0_0_def)

theorem migrate_1_0_0_without_legacy_data_witness:
  "\<not> truthy (load (new_world upgrade_backend) ''Wavesmainnet'') \<and>
   migrate_1_0_0 (new_world upgrade_backend) = Inr (new_world upgrade_backend)"
proof -
  have h: "\<not> truthy (load (new_world upgrade_backend) ''Wavesmainnet'')"
    by (simp add: load_missing new_world_def upgrade_backend_def)
  from migrate_1_0_0_without_legacy_data [OF h] h show ?thesis by simp
qed

section \<open>\<^verbatim>\<open>JSON.parse\<close> undoes \<^verbatim>\<open>JSON.stringify\<close>\<close>

lemma char_of_eq_iff: "char_of (a::nat) = c \<longleftrightarrow> a mod 256 = of_char c"
  by (metis of_char_of char_of_char)

lemma of_char_digit: "d < 10 \<Longrightarrow> (of_char (char_of (48 + d :: nat)) :: nat) = 48 + d"
  by simp

lemma is_digit_char_of: "d < 10 \<Longrightarrow> is_digit (char_of (48 + d :: nat))"
  by (simp add: is_digit_def)

lemma show_nat_digits: "list_all is_digit (show_nat n)"
proof (induction n rule: show_nat.induct)
  case (1 n)
  then show ?case
    by (subst show_nat.simps) (simp add: is_digit_char_of)
qed

lemma show_nat_not_empty: "show_nat n \<noteq> []"
  by (subst show_nat.simps) simp

lemma digits_val_snoc: "digits_val (ds @ [c]) = 10 * digits_val ds + (of_char c - 48)"
  by (simp add: digits_val_def)

lemma digits_val_show_nat: "digits_val (show_nat n) = n"
proof (induction n rule: show_nat.induct)
  case (1 n)
  show ?case
  proof (cases "n < 10")
    case True
    then show ?thesis by (subst show_nat.simps) (simp add: digits_val_def)
  next
    case False
    then have "digits_val (show_nat n) = 10 * digits_val (show_nat (n div 10)) + n mod 10"
      by (subst show_nat.simps) (simp add: digits_val_snoc)
    with False 1 show ?thesis by simp
  qed
qed

lemma hd_show_nat_zero: "hd (show_nat n) = CHR ''0'' \<longleftrightarrow> n = 0"
proof (induction n rule: show_nat.induct)
  case (1 n)
  show ?case
  proof (cases "n < 10")
    case True
    then show ?thesis by (subst show_nat.simps) (simp add: char_of_eq_iff)
  next
    case False
    then have "hd (show_nat n) = hd (show_nat (n div 10))"
      by (subst show_nat.simps) (simp add: show_nat_not_empty)
    with False 1 show ?thesis by simp
  qed
qed

lemma span_digits:
  assumes "list_all is_digit ds" and "rest = [] \<or> \<not> is_digit (hd rest)"
  shows "takeWhile is_digit (ds @ rest) = ds" and "dropWhile is_digit (ds @ rest) = rest"
proof -
  from assms(2) have r: "takeWhile is_digit rest = []" "dropWhile is_digit rest = rest"
    by (cases rest; simp)+
  from assms(1) have "\<forall>c\<in>set ds. is_digit c" by (simp add: list_all_iff)
  then show "takeWhile is_digit (ds @ rest) = ds" "dropWhile is_digit (ds @ rest) = rest"
    using r by (simp_all add: takeWhile_append2 dropWhile_append2)
qed

lemma digits_val_append:
  "digits_val (xs @ ys) = digits_val xs * 10 ^ length ys + digits_val ys"
proof (induction ys rule: rev_induct)
  case Nil
  show ?case by (simp add: digits_val_def)
next
  case (snoc c ys)
  have "digits_val (xs @ ys @ [c]) = 10 * digits_val (xs @ ys) + (of_char c - 48)"
    using digits_val_snoc [of "xs @ ys" c] by simp
  with snoc show ?case by (simp add: digits_val_snoc algebra_simps)
qed

lemma digits_val_zeros: "digits_val (replicate j (CHR ''0'')) = 0"
proof (induction j)
  case 0
  show ?case by (simp add: digits_val_def)
next
  case (Suc j)
  have "replicate (Suc j) (CHR ''0'') = replicate j (CHR ''0'') @ ''0''"
    by (simp add: replicate_append_same)
  with Suc show ?case by (simp only: digits_val_snoc) simp
qed

lemma zeros_digits: "list_all is_digit (replicate j (CHR ''0''))"
  by (simp add: list_all_iff is_digit_def)

lemma strip_zeros_shift:
  "s \<noteq> 0 \<Longrightarrow> s mod 10 \<noteq> 0 \<Longrightarrow> strip_zeros (s * 10 ^ j) e = (s, e + int j)"
proof (induction j arbitrary: e)
  case 0
  then show ?case by (subst strip_zeros.simps) simp
next
  case (Suc j)
  have "strip_zeros (s * 10 ^ Suc j) e = strip_zeros (s * 10 ^ j) (e + 1)"
    using Suc.prems(1) by (subst strip_zeros.simps) simp
  with Suc show ?case by simp
qed

lemma strip_zeros_kept: "s \<noteq> 0 \<Longrightarrow> s mod 10 \<noteq> 0 \<Longrightarrow> strip_zeros s e = (s, e)"
  using strip_zeros_shift [of s 0 e] by simp

text \<open>The digits \<^verbatim>\<open>String\<close> prints for a positive number.\<close>

lemma show_nat_facts:
  assumes "s \<noteq> 0"
  shows "list_all is_digit (show_nat s)" "show_nat s \<noteq> []" "hd (show_nat s) \<noteq> CHR ''0''"
    "digits_val (show_nat s) = s" "is_digit (hd (show_nat s))"
proof -
  show d: "list_all is_digit (show_nat s)" by (rule show_nat_digits)
  show n: "show_nat s \<noteq> []" by (rule show_nat_not_empty)
  show "hd (show_nat s) \<noteq> CHR ''0''" using assms by (simp add: hd_show_nat_zero)
  show "digits_val (show_nat s) = s" by (rule digits_val_show_nat)
  show "is_digit (hd (show_nat s))" using d n by (cases "show_nat s") simp_all
qed

lemma number_end_facts:
  assumes "number_end rest"
  shows "rest = [] \<or> \<not> is_digit (hd rest)" "rest = [] \<or> hd rest \<noteq> CHR ''.''"
    "rest = [] \<or> hd rest \<noteq> CHR ''e'' \<and> hd rest \<noteq> CHR ''E''"
  using assms by (cases rest; simp add: number_end_def)+

lemma not_digit:
  "\<not> is_digit (CHR ''.'')" "\<not> is_digit (CHR ''e'')" "\<not> is_digit (CHR ''E'')"
  "\<not> is_digit (CHR ''-'')" "\<not> is_digit (CHR ''+'')"
  by (simp_all add: is_digit_def)

text \<open>The three parts of a literal, each on the text it is written as.\<close>

lemma parse_int_part_digits:
  assumes "list_all is_digit ds" and "ds \<noteq> []" and "hd ds \<noteq> CHR ''0''"
    and "r = [] \<or> \<not> is_digit (hd r)"
  shows "parse_int_part (ds @ r) = Some (ds, r)"
proof -
  obtain c cs where s: "ds = c # cs" using assms(2) by (cases ds) auto
  have "takeWhile is_digit (c # cs @ r) = c # cs" "dropWhile is_digit (c # cs @ r) = r"
    using span_digits [OF assms(1,4)] by (simp_all add: s)
  moreover have "is_digit c" "c \<noteq> CHR ''0''" using assms(1,3) by (simp_all add: s)
  ultimately have "parse_int_part (c # cs @ r) = Some (c # cs, r)"
    unfolding parse_int_part_def by (simp del: takeWhile.simps dropWhile.simps)
  then show ?thesis by (simp add: s)
qed

lemma parse_int_part_zero: "parse_int_part (CHR ''0'' # r) = Some (''0'', r)"
  by (simp add: parse_int_part_def)

lemma parse_fraction_none: "r = [] \<or> hd r \<noteq> CHR ''.'' \<Longrightarrow> parse_fraction r = Some ([], r)"
  by (cases r) (simp_all add: parse_fraction_def)

lemma parse_fraction_digits:
  assumes "list_all is_digit ds" and "ds \<noteq> []" and "r = [] \<or> \<not> is_digit (hd r)"
  shows "parse_fraction (CHR ''.'' # ds @ r) = Some (ds, r)"
  using span_digits [OF assms(1,3)] assms(2) by (simp add: parse_fraction_def)

lemma parse_exponent_none:
  "r = [] \<or> hd r \<noteq> CHR ''e'' \<and> hd r \<noteq> CHR ''E'' \<Longrightarrow> parse_exponent r = Some (0, r)"
  by (cases r) (simp_all add: parse_exponent_def)

lemma parse_exponent_show:
  assumes "r = [] \<or> \<not> is_digit (hd r)"
  shows "parse_exponent (CHR ''e'' # show_exponent x @ r) = Some (x, r)"
proof -
  have sp: "takeWhile is_digit (show_nat n @ r) = show_nat n"
    "dropWhile is_digit (show_nat n @ r) = r" for n
    using span_digits [OF show_nat_digits assms] by simp_all
  show ?thesis
    by (cases "x < 0")
       (simp_all add: parse_exponent_def show_exponent_def sp show_nat_not_empty
          digits_val_show_nat)
qed

text \<open>The five layouts of Number::toString, each read back.\<close>

lemma parse_unsigned_whole:
  assumes "s \<noteq> 0" and "s mod 10 \<noteq> 0" and "number_end rest"
  shows "parse_unsigned (show_nat s @ replicate j (CHR ''0'') @ rest) = Some ((s, int j), rest)"
proof -
  let ?ds = "show_nat s @ replicate j (CHR ''0'')"
  have "list_all is_digit ?ds" "?ds \<noteq> []" "hd ?ds \<noteq> CHR ''0''"
    using show_nat_facts [OF assms(1)] by (simp_all add: zeros_digits)
  then have "parse_int_part (?ds @ rest) = Some (?ds, rest)"
    using number_end_facts(1) [OF assms(3)] by (rule parse_int_part_digits)
  then show ?thesis
    using number_end_facts [OF assms(3)] assms(1,2)
    by (simp add: parse_unsigned_def parse_fraction_none parse_exponent_none
          digits_val_append digits_val_zeros digits_val_show_nat strip_zeros_shift)
qed

lemma parse_unsigned_point:
  assumes "s \<noteq> 0" and "s mod 10 \<noteq> 0" and "number_end rest"
    and "0 < i" and "i < length (show_nat s)"
  shows "parse_unsigned (take i (show_nat s) @ CHR ''.'' # drop i (show_nat s) @ rest)
         = Some ((s, int i - int (length (show_nat s))), rest)"
proof -
  let ?ds = "show_nat s"
  have all: "\<forall>c\<in>set ?ds. is_digit c" using show_nat_digits [of s] by (simp add: list_all_iff)
  have t: "list_all is_digit (take i ?ds)" "take i ?ds \<noteq> []" "hd (take i ?ds) \<noteq> CHR ''0''"
    using all show_nat_facts [OF assms(1)] assms(4)
    by (auto simp add: list_all_iff dest: in_set_takeD)
  have d: "list_all is_digit (drop i ?ds)" "drop i ?ds \<noteq> []"
    using all assms(5) by (auto simp add: list_all_iff dest: in_set_dropD)
  have "parse_int_part (take i ?ds @ CHR ''.'' # drop i ?ds @ rest)
        = Some (take i ?ds, CHR ''.'' # drop i ?ds @ rest)"
    using t by (rule parse_int_part_digits) (simp add: not_digit)
  moreover have "parse_fraction (CHR ''.'' # drop i ?ds @ rest) = Some (drop i ?ds, rest)"
    using d number_end_facts(1) [OF assms(3)] by (rule parse_fraction_digits)
  moreover have "strip_zeros s (- int (length ?ds - i)) = (s, int i - int (length ?ds))"
    using assms(1,2,5) by (simp add: strip_zeros_kept)
  ultimately show ?thesis
    using number_end_facts(3) [OF assms(3)]
    by (simp add: parse_unsigned_def parse_exponent_none digits_val_show_nat)
qed

lemma parse_unsigned_small:
  assumes "s \<noteq> 0" and "s mod 10 \<noteq> 0" and "number_end rest"
  shows "parse_unsigned (''0.'' @ replicate j (CHR ''0'') @ show_nat s @ rest)
         = Some ((s, - int j - int (length (show_nat s))), rest)"
proof -
  let ?fp = "replicate j (CHR ''0'') @ show_nat s"
  have "list_all is_digit ?fp" "?fp \<noteq> []"
    using show_nat_facts [OF assms(1)] by (simp_all add: zeros_digits)
  then have "parse_fraction (CHR ''.'' # ?fp @ rest) = Some (?fp, rest)"
    using number_end_facts(1) [OF assms(3)] by (rule parse_fraction_digits)
  moreover have "digits_val (CHR ''0'' # ?fp) = s"
    using digits_val_append [of "CHR ''0'' # replicate j (CHR ''0'')" "show_nat s"]
      digits_val_zeros [of "Suc j"] by (simp add: digits_val_show_nat)
  moreover have "strip_zeros s (- int (length ?fp)) = (s, - int j - int (length (show_nat s)))"
    using assms(1,2) by (simp add: strip_zeros_kept)
  ultimately show ?thesis
    using number_end_facts(3) [OF assms(3)]
    by (simp add: parse_unsigned_def parse_int_part_zero parse_exponent_none)
qed

lemma parse_unsigned_exponent:
  assumes "s \<noteq> 0" and "s mod 10 \<noteq> 0" and "number_end rest" and "length (show_nat s) = 1"
  shows "parse_unsigned (show_nat s @ CHR ''e'' # show_exponent x @ rest) = Some ((s, x), rest)"
proof -
  have "parse_int_part (show_nat s @ CHR ''e'' # show_exponent x @ rest)
        = Some (show_nat s, CHR ''e'' # show_exponent x @ rest)"
    using show_nat_facts(1-3) [OF assms(1)] by (rule parse_int_part_digits) (simp add: not_digit)
  moreover have "parse_fraction (CHR ''e'' # show_exponent x @ rest)
        = Some ([], CHR ''e'' # show_exponent x @ rest)"
    by (rule parse_fraction_none) simp
  moreover have "parse_exponent (CHR ''e'' # show_exponent x @ rest) = Some (x, rest)"
    using number_end_facts(1) [OF assms(3)] by (rule parse_exponent_show)
  ultimately show ?thesis
    using assms(1,2) by (simp add: parse_unsigned_def digits_val_show_nat strip_zeros_kept)
qed

lemma parse_unsigned_point_exponent:
  assumes "s \<noteq> 0" and "s mod 10 \<noteq> 0" and "number_end rest" and "1 < length (show_nat s)"
  shows "parse_unsigned
           (take 1 (show_nat s) @ CHR ''.'' # drop 1 (show_nat s) @ CHR ''e'' # show_exponent x @ rest)
         = Some ((s, x - int (length (show_nat s) - 1)), rest)"
proof -
  let ?ds = "show_nat s"
  let ?ex = "CHR ''e'' # show_exponent x @ rest"
  have all: "\<forall>c\<in>set ?ds. is_digit c" using show_nat_digits [of s] by (simp add: list_all_iff)
  have t: "list_all is_digit (take 1 ?ds)" "take 1 ?ds \<noteq> []" "hd (take 1 ?ds) \<noteq> CHR ''0''"
    using all show_nat_facts [OF assms(1)]
    by (auto simp add: list_all_iff dest: in_set_takeD)
  have d: "list_all is_digit (drop 1 ?ds)" "drop 1 ?ds \<noteq> []"
    using all assms(4) by (auto simp add: list_all_iff dest: in_set_dropD)
  have "parse_int_part (take 1 ?ds @ CHR ''.'' # drop 1 ?ds @ ?ex)
        = Some (take 1 ?ds, CHR ''.'' # drop 1 ?ds @ ?ex)"
    using t by (rule parse_int_part_digits) (simp add: not_digit)
  moreover have "parse_fraction (CHR ''.'' # drop 1 ?ds @ ?ex) = Some (drop 1 ?ds, ?ex)"
    using d by (rule parse_fraction_digits) (simp add: not_digit)
  moreover have "parse_exponent ?ex = Some (x, rest)"
    using number_end_facts(1) [OF assms(3)] by (rule parse_exponent_show)
  ultimately show ?thesis
    using assms(1,2) by (simp add: parse_unsigned_def digits_val_show_nat strip_zeros_kept)
qed

lemma parse_unsigned_show_digits:
  assumes "s \<noteq> 0" and "s mod 10 \<noteq> 0" and "number_end rest"
  shows "parse_unsigned (show_digits (show_nat s) n @ rest)
         = Some ((s, n - int (length (show_nat s))), rest)"
proof -
  let ?ds = "show_nat s"
  let ?k = "int (length ?ds)"
  have k: "0 < length ?ds" using show_nat_not_empty [of s] by simp
  consider (whole) "?k \<le> n \<and> n \<le> 21"
    | (point) "\<not> (?k \<le> n \<and> n \<le> 21)" "0 < n \<and> n \<le> 21"
    | (small) "\<not> (?k \<le> n \<and> n \<le> 21)" "\<not> (0 < n \<and> n \<le> 21)" "- 6 < n \<and> n \<le> 0"
    | (exponent) "\<not> (?k \<le> n \<and> n \<le> 21)" "\<not> (0 < n \<and> n \<le> 21)" "\<not> (- 6 < n \<and> n \<le> 0)"
        "?k = 1"
    | (point_exponent) "\<not> (?k \<le> n \<and> n \<le> 21)" "\<not> (0 < n \<and> n \<le> 21)"
        "\<not> (- 6 < n \<and> n \<le> 0)" "\<not> ?k = 1"
    by blast
  then show ?thesis
  proof cases
    case whole
    have "show_digits ?ds n = ?ds @ replicate (nat (n - ?k)) (CHR ''0'')"
      using whole k by (auto simp add: show_digits_def Let_def)
    then show ?thesis
      using parse_unsigned_whole [OF assms, of "nat (n - ?k)"] whole by simp
  next
    case point
    have "show_digits ?ds n = take (nat n) ?ds @ CHR ''.'' # drop (nat n) ?ds"
      using point k by (auto simp add: show_digits_def Let_def)
    moreover have "0 < nat n" "nat n < length ?ds" using point by linarith+
    ultimately show ?thesis
      using parse_unsigned_point [OF assms, of "nat n"] point by simp
  next
    case small
    have "\<not> ?k \<le> n" using small(3) k by linarith
    then have "show_digits ?ds n = ''0.'' @ replicate (nat (- n)) (CHR ''0'') @ ?ds"
      using small by (auto simp add: show_digits_def Let_def)
    then show ?thesis
      using parse_unsigned_small [OF assms, of "nat (- n)"] small by simp
  next
    case exponent
    have one: "length ?ds = 1" using exponent(4) by simp
    have "show_digits ?ds n = ?ds @ CHR ''e'' # show_exponent (n - 1)"
      using exponent k by (auto simp add: show_digits_def Let_def)
    then show ?thesis
      using parse_unsigned_exponent [OF assms one, of "n - 1"] one by simp
  next
    case point_exponent
    have more: "1 < length ?ds" using point_exponent(4) k by linarith
    have "show_digits ?ds n
          = take 1 ?ds @ CHR ''.'' # drop 1 ?ds @ CHR ''e'' # show_exponent (n - 1)"
      using point_exponent k by (auto simp add: show_digits_def Let_def)
    then show ?thesis
      using parse_unsigned_point_exponent [OF assms more, of "n - 1"] more by simp
  qed
qed

lemma show_digits_start:
  assumes "s \<noteq> 0"
  shows "\<exists>c cs. show_digits (show_nat s) n = c # cs \<and> is_digit c"
proof -
  obtain d ds where s: "show_nat s = d # ds"
    using show_nat_not_empty [of s] by (cases "show_nat s") auto
  have "is_digit d" using show_nat_facts(5) [OF assms] by (simp add: s)
  moreover have "is_digit (CHR ''0'')" by (simp add: is_digit_def)
  ultimately show ?thesis
    by (cases "0 < n") (auto simp add: show_digits_def s Let_def nat_le_iff take_Cons')
qed

lemma Number_toString_start:
  "\<exists>c cs. Number_toString m e = c # cs \<and> (is_digit c \<or> c = CHR ''-'')"
proof (cases "m = 0")
  case True
  then show ?thesis by (simp add: Number_toString_def is_digit_def)
next
  case False
  define s where "s = nat \<bar>m\<bar>"
  have "s \<noteq> 0" using False by (simp add: s_def)
  then obtain c cs where
    c: "show_digits (show_nat s) (e + int (length (show_nat s))) = c # cs" "is_digit c"
    using show_digits_start by blast
  show ?thesis
    using False c unfolding Number_toString_def Let_def s_def [symmetric] by simp
qed

text \<open>
  What \<^verbatim>\<open>String\<close> prints for a number is read back as that number, whatever follows
  that does not continue the literal.
\<close>

lemma parse_number_toString:
  assumes "if m = 0 then e = 0 else m mod 10 \<noteq> 0" and "number_end rest"
  shows "parse_number (Number_toString m e @ rest) = Some (JNum m e, rest)"
proof (cases "m = 0")
  case True
  have "strip_zeros 0 0 = (0, 0)" by (subst strip_zeros.simps) simp
  then have "parse_unsigned (CHR ''0'' # rest) = Some ((0, 0), rest)"
    using number_end_facts [OF assms(2)]
    by (simp add: parse_unsigned_def parse_int_part_zero parse_fraction_none parse_exponent_none
          digits_val_def)
  with True assms(1) show ?thesis by (simp add: Number_toString_def parse_number_def)
next
  case False
  define s where "s = nat \<bar>m\<bar>"
  have m: "m = (if m < 0 then - int s else int s)" by (simp add: s_def)
  have "m mod 10 \<noteq> 0" using False assms(1) by simp
  then have "\<bar>m\<bar> mod 10 \<noteq> 0" by presburger
  moreover have "int (s mod 10) = \<bar>m\<bar> mod 10" by (simp add: s_def zmod_int)
  ultimately have s: "s \<noteq> 0" "s mod 10 \<noteq> 0"
    using False by (simp_all add: s_def)
  let ?t = "show_digits (show_nat s) (e + int (length (show_nat s)))"
  have un: "parse_unsigned (?t @ rest) = Some ((s, e), rest)"
    using parse_unsigned_show_digits [OF s assms(2), of "e + int (length (show_nat s))"] by simp
  obtain c cs where c: "?t = c # cs" "is_digit c"
    using show_digits_start [OF s(1)] by blast
  have "c \<noteq> CHR ''-''" using c(2) not_digit(4) by auto
  then have "parse_number (Number_toString m e @ rest)
             = Some (JNum (if m < 0 then - int s else int s) e, rest)"
    using un False unfolding Number_toString_def Let_def s_def [symmetric]
    by (simp add: parse_number_def c)
  then show ?thesis using m by simp
qed
lemma hex_val_hex_digit: "d < 16 \<Longrightarrow> hex_val (hex_digit d) = Some d"
  by (simp add: hex_val_def hex_digit_def Let_def)

lemma hex_val_zero: "hex_val (CHR ''0'') = Some 0"
  by (simp add: hex_val_def)

lemma unicode_escape_control:
  assumes "(of_char c :: nat) < 32"
  shows "unicode_escape (CHR ''0'') (CHR ''0'') (hex_digit (of_char c div 16))
           (hex_digit (of_char c mod 16)) = Some c"
proof -
  let ?n = "of_char c :: nat"
  have "?n div 16 < 16" "?n mod 16 < 16" using assms by simp_all
  then have "hex_val (hex_digit (?n div 16)) = Some (?n div 16)"
    "hex_val (hex_digit (?n mod 16)) = Some (?n mod 16)"
    by (simp_all only: hex_val_hex_digit)
  moreover have "char_of (16 * (?n div 16) + ?n mod 16) = c" by simp
  ultimately show ?thesis by (simp only: unicode_escape_def hex_val_zero) simp
qed

lemma parse_chars_quote_char:
  "parse_chars (quote_char c @ t) = map_option (\<lambda>(s, r). (c # s, r)) (parse_chars t)"
proof -
  consider (short) "c \<in> {CHR 0x22, CHR 0x5C, CHR 0x08, CHR 0x0C, CHR 0x0A, CHR 0x0D, CHR 0x09}"
    | (control) "c \<notin> {CHR 0x22, CHR 0x5C, CHR 0x08, CHR 0x0C, CHR 0x0A, CHR 0x0D, CHR 0x09}"
        "(of_char c :: nat) < 32"
    | (plain) "c \<noteq> CHR 0x22" "c \<noteq> CHR 0x5C" "\<not> (of_char c :: nat) < 32"
    by blast
  then show ?thesis
  proof cases
    case short
    then show ?thesis by (auto simp add: quote_char_def unescape_def)
  next
    case control
    then have "quote_char c = [CHR 0x5C, CHR ''u'', CHR ''0'', CHR ''0'',
        hex_digit (of_char c div 16), hex_digit (of_char c mod 16)]"
      by (simp add: quote_char_def)
    then show ?thesis
      using unicode_escape_control [OF control(2)] by simp
  next
    case plain
    then have "quote_char c = [c]"
      by (auto simp add: quote_char_def)
    then show ?thesis using plain by simp
  qed
qed

lemma parse_chars_quoted:
  "parse_chars (concat (map quote_char s) @ CHR 0x22 # rest) = Some (s, rest)"
  by (induction s) (simp_all add: parse_chars_quote_char)

lemma quote_parse: "quote s @ rest = CHR 0x22 # concat (map quote_char s) @ CHR 0x22 # rest"
  by (simp add: quote_def)

lemma value_start_facts:
  assumes "value_start c"
  shows "\<not> is_ws c" "c \<noteq> CHR '']''" "c \<noteq> CHR ''}''" "c \<noteq> CHR '',''" "c \<noteq> CHR '':''"
  using assms by (auto simp add: value_start_def is_digit_def is_ws_def)

lemma skip_ws_Cons: "\<not> is_ws c \<Longrightarrow> skip_ws (c # cs) = c # cs"
  by (simp add: skip_ws_def)

lemma skip_ws_delimiter:
  "skip_ws (CHR '']'' # t) = CHR '']'' # t" "skip_ws (CHR ''}'' # t) = CHR ''}'' # t"
  "skip_ws (CHR '','' # t) = CHR '','' # t" "skip_ws (CHR '':'' # t) = CHR '':'' # t"
  "skip_ws (CHR 0x22 # t) = CHR 0x22 # t"
  by (simp_all add: skip_ws_def is_ws_def)

lemma serializable_defined: "serializable v \<Longrightarrow> v \<noteq> JUndefined"
  by (cases v) simp_all

lemma ser_start: "serializable v \<Longrightarrow> \<exists>c cs. ser v = c # cs \<and> value_start c"
proof (cases v)
  case (JNum m e)
  then show ?thesis
    using Number_toString_start [of m e] by (auto simp add: value_start_def)
qed (simp_all add: value_start_def quote_def)

lemma join_comma_Cons:
  "join_comma (x # xs) = (if xs = [] then x else x @ CHR '','' # join_comma xs)"
  by (cases xs) simp_all

text \<open>The literals and the numbers.\<close>

lemma parse_value_literal:
  "parse_value (''null'' @ rest) = Some (JNull, rest)"
  "parse_value (''true'' @ rest) = Some (JBool True, rest)"
  "parse_value (''false'' @ rest) = Some (JBool False, rest)"
  by (simp_all add: parse_value.simps skip_ws_def is_ws_def strip_prefix_def)

lemma parse_value_number:
  assumes "if m = 0 then e = 0 else m mod 10 \<noteq> 0" and "number_end rest"
  shows "parse_value (Number_toString m e @ rest) = Some (JNum m e, rest)"
proof -
  obtain c cs where s: "Number_toString m e = c # cs" and st: "is_digit c \<or> c = CHR ''-''"
    using Number_toString_start by blast
  from st have vs: "value_start c" by (auto simp add: value_start_def)
  have ws: "skip_ws (c # cs @ rest) = c # cs @ rest"
    using value_start_facts(1) [OF vs] by (rule skip_ws_Cons)
  have no: "c \<noteq> CHR ''{''" "c \<noteq> CHR ''[''" "c \<noteq> CHR 0x22" "c \<noteq> CHR ''t''" "c \<noteq> CHR ''f''"
    "c \<noteq> CHR ''n''"
    using st by (auto simp add: is_digit_def)
  have "parse_number (c # cs @ rest) = Some (JNum m e, rest)"
    using parse_number_toString [OF assms] by (simp add: s)
  then show ?thesis
    by (subst parse_value.simps) (simp add: s ws no)
qed

lemma parse_value_string: "parse_value (quote s @ rest) = Some (JStr s, rest)"
  by (subst parse_value.simps)
     (simp add: quote_parse skip_ws_delimiter parse_chars_quoted)

text \<open>The elements of a non-empty array, given that each element parses back.\<close>

lemma parse_elements_ser:
  assumes "xs \<noteq> []"
    and "\<And>x r. x \<in> set xs \<Longrightarrow> number_end r \<Longrightarrow> parse_value (ser x @ r) = Some (x, r)"
  shows "parse_elements (join_comma (map ser xs) @ CHR '']'' # rest) = Some (xs, rest)"
  using assms
proof (induction xs rule: list_nonempty_induct)
  case (single x)
  have "parse_value (ser x @ CHR '']'' # rest) = Some (x, CHR '']'' # rest)"
    by (rule single) (simp_all add: number_end_def is_digit_def)
  then show ?case
    by (subst parse_elements.simps) (simp add: skip_ws_delimiter)
next
  case (cons x xs)
  let ?more = "join_comma (map ser xs) @ CHR '']'' # rest"
  have "parse_value (ser x @ CHR '','' # ?more) = Some (x, CHR '','' # ?more)"
    by (rule cons.prems) (simp_all add: number_end_def is_digit_def)
  moreover have "parse_elements ?more = Some (xs, rest)"
    by (rule cons.IH) (simp add: cons.prems)
  ultimately show ?case
    using cons.hyps
    by (subst parse_elements.simps) (simp add: join_comma_Cons skip_ws_delimiter)
qed

text \<open>The members of a non-empty object with distinct names.\<close>

lemma add_member_new: "k \<notin> fst ` set ms \<Longrightarrow> add_member k v ms = (k, v) # ms"
proof -
  assume k: "k \<notin> fst ` set ms"
  then have "map_of ms k = None" by (simp add: map_of_eq_None_iff)
  moreover have "filter (\<lambda>(k', w). k' \<noteq> k) ms = ms"
    using k by (induction ms) auto
  ultimately show ?thesis by (simp add: add_member_def)
qed

lemma parse_members_ser:
  assumes "ps \<noteq> []" and "distinct (map fst ps)"
    and "\<And>k v r. (k, v) \<in> set ps \<Longrightarrow> number_end r \<Longrightarrow>
           parse_value (ser v @ r) = Some (v, r)"
  shows "parse_members (join_comma (map (\<lambda>(k, v). quote k @ CHR '':'' # ser v) ps) @ CHR ''}'' # rest)
           = Some (ps, rest)"
  using assms
proof (induction ps rule: list_nonempty_induct)
  case (single p)
  obtain k v where p: "p = (k, v)" by (cases p)
  have "parse_value (ser v @ CHR ''}'' # rest) = Some (v, CHR ''}'' # rest)"
    by (rule single(2) [of k]) (simp_all add: p number_end_def is_digit_def)
  then show ?case
    by (subst parse_members.simps)
       (simp add: p quote_parse skip_ws_delimiter parse_chars_quoted)
next
  case (cons p ps)
  obtain k v where p: "p = (k, v)" by (cases p)
  let ?more = "join_comma (map (\<lambda>(k, v). quote k @ CHR '':'' # ser v) ps) @ CHR ''}'' # rest"
  have "parse_value (ser v @ CHR '','' # ?more) = Some (v, CHR '','' # ?more)"
    by (rule cons.prems(2) [of k]) (simp_all add: p number_end_def is_digit_def)
  moreover have "parse_members ?more = Some (ps, rest)"
  proof (rule cons.IH)
    show "distinct (map fst ps)" using cons.prems(1) by simp
    show "parse_value (ser v' @ r) = Some (v', r)"
      if "(k', v') \<in> set ps" "number_end r" for k' v' r
      using that by (intro cons.prems(2) [of k']) simp_all
  qed
  moreover have "add_member k v ps = (k, v) # ps"
    using cons.prems(1) by (intro add_member_new) (simp add: p)
  ultimately show ?case
    using cons.hyps
    by (subst parse_members.simps)
       (simp add: p join_comma_Cons quote_parse skip_ws_delimiter parse_chars_quoted)
qed

lemma parse_value_array:
  assumes "\<And>x r. x \<in> set xs \<Longrightarrow> number_end r \<Longrightarrow> parse_value (ser x @ r) = Some (x, r)"
    and "list_all serializable xs"
  shows "parse_value (ser (JArr xs) @ rest) = Some (JArr xs, rest)"
proof (cases xs)
  case Nil
  then show ?thesis
    by (subst parse_value.simps) (simp add: skip_ws_def is_ws_def)
next
  case (Cons x xs')
  let ?body = "join_comma (map ser xs) @ CHR '']'' # rest"
  have "serializable x" using assms(2) Cons by simp
  then obtain c cs where c: "ser x = c # cs" "value_start c"
    using ser_start by blast
  then obtain t where body: "?body = c # t"
    by (cases xs') (simp_all add: Cons)
  have ws: "skip_ws ?body = c # t"
    using value_start_facts(1) [OF c(2)] by (simp add: body skip_ws_Cons)
  have el: "parse_elements ?body = Some (xs, rest)"
    using assms(1) by (intro parse_elements_ser) (simp_all add: Cons)
  have "parse_value (CHR ''['' # ?body) = Some (JArr xs, rest)"
    using value_start_facts(2) [OF c(2)]
    by (subst parse_value.simps) (simp add: skip_ws_def is_ws_def ws [unfolded skip_ws_def] el)
  then show ?thesis by simp
qed

lemma parse_value_object:
  assumes "\<And>k v r. (k, v) \<in> set ps \<Longrightarrow> number_end r \<Longrightarrow>
             parse_value (ser v @ r) = Some (v, r)"
    and "distinct (map fst ps)" and "list_all (\<lambda>(k, v). serializable v) ps"
  shows "parse_value (ser (JObj ps) @ rest) = Some (JObj ps, rest)"
proof -
  have "\<forall>(k, v) \<in> set ps. v \<noteq> JUndefined"
    using assms(3) by (auto simp add: list_all_iff dest: serializable_defined)
  then have keep: "filter (\<lambda>(k, v). v \<noteq> JUndefined) ps = ps"
    by (induction ps) auto
  show ?thesis
  proof (cases ps)
    case Nil
    then show ?thesis
      by (subst parse_value.simps) (simp add: skip_ws_def is_ws_def)
  next
    case (Cons p ps')
    let ?body = "join_comma (map (\<lambda>(k, v). quote k @ CHR '':'' # ser v) ps) @ CHR ''}'' # rest"
    obtain t where body: "?body = CHR 0x22 # t"
      by (cases p; cases ps') (simp_all add: Cons quote_def)
    have mem: "parse_members ?body = Some (ps, rest)"
      using assms(1,2) by (intro parse_members_ser) (simp_all add: Cons)
    have "parse_value (CHR ''{'' # ?body) = Some (JObj ps, rest)"
      by (subst parse_value.simps)
         (simp add: skip_ws_def is_ws_def skip_ws_delimiter(5) [unfolded skip_ws_def] body
            mem [unfolded body])
    then show ?thesis by (simp add: keep)
  qed
qed

text \<open>
  A serialized value parses back to itself and leaves what follows it, provided what
  follows cannot continue a number.
\<close>

lemma parse_value_ser:
  "serializable v \<Longrightarrow> number_end rest \<Longrightarrow>
     parse_value (ser v @ rest) = Some (v, rest)"
proof (induction v arbitrary: rest)
  case JUndefined
  then show ?case by simp
next
  case JNull
  show ?case using parse_value_literal(1) by simp
next
  case (JBool b)
  show ?case using parse_value_literal(2,3) by (cases b) simp_all
next
  case (JNum m e)
  then show ?case by (simp add: parse_value_number)
next
  case (JStr s)
  show ?case by (simp add: parse_value_string)
next
  case (JArr xs)
  have "list_all serializable xs" using JArr.prems(1) by simp
  moreover from this have "parse_value (ser x @ r) = Some (x, r)"
    if "x \<in> set xs" "number_end r" for x r
    using that JArr.IH [of x r] by (simp add: list_all_iff)
  ultimately show ?case by (intro parse_value_array) simp_all
next
  case (JObj ps)
  have d: "distinct (map fst ps)" and a: "list_all (\<lambda>(k, v). serializable v) ps"
    using JObj.prems(1) by simp_all
  have "parse_value (ser v @ r) = Some (v, r)"
    if "(k, v) \<in> set ps" "number_end r" for k v r
  proof (rule JObj.IH [of "(k, v)" v r])
    show "(k, v) \<in> set ps" by (rule that(1))
    show "v \<in> Basic_BNFs.snds (k, v)" by simp
    show "serializable v" using a that(1) by (auto simp add: list_all_iff)
    show "number_end r" by (rule that(2))
  qed
  then show ?case using d a by (intro parse_value_object) simp_all
qed

lemma JSON_parse_ser: "serializable v \<Longrightarrow> JSON_parse (ser v) = Some v"
  using parse_value_ser [of v "[]"] by (simp add: JSON_parse_def skip_ws_def number_end_def)

lemma stringify_ser: "serializable v \<Longrightarrow> typeof v \<noteq> ''string'' \<Longrightarrow> stringify v = ser v"
  by (cases v) (simp_all add: stringify_def typeof_def)

lemma load_save_ser:
  assumes "serializable v" and "typeof v \<noteq> ''string''"
  shows "load (save w k v) k = v"
proof -
  have "stringify v = ser v" using assms by (rule stringify_ser)
  then show ?thesis
    using JSON_parse_ser [OF assms(1)] by (simp add: load_stored)
qed

text \<open>
  C6. A JSON-serializable value that is not a string comes back from \<open>load\<close> equal to
  what was saved, for every key. The values are those of \<open>jsval\<close>: the numbers include
  the fractions and the numbers that \<^verbatim>\<open>String\<close> prints with an exponent.
\<close>

theorem save_load_serializable_value:
  assumes "serializable v" and "typeof v \<noteq> ''string''"
  shows "load (save w k v) k = v"
  using assms by (rule load_save_ser)

theorem save_load_serializable_value_witness:
  "serializable (JArr [JObj [(''address'', JStr ''3PAbc''), (''encryptedSeed'', JStr ''U2Fsd''),
        (''settings'', JObj [(''encryptionRounds'', JNum 1 3), (''pinnedAssetIdList'', JArr []),
                             (''hasBackup'', JBool True), (''theme'', JNull)])],
        JNum 5 (- 1), JNum 1 21, JNum (- 125) (- 5), JNum 15 (- 8), JNum 0 0]) \<and>
   load (save (new_world Map.empty) ''userList''
     (JArr [JObj [(''address'', JStr ''3PAbc''), (''encryptedSeed'', JStr ''U2Fsd''),
        (''settings'', JObj [(''encryptionRounds'', JNum 1 3), (''pinnedAssetIdList'', JArr []),
                             (''hasBackup'', JBool True), (''theme'', JNull)])],
        JNum 5 (- 1), JNum 1 21, JNum (- 125) (- 5), JNum 15 (- 8), JNum 0 0])) ''userList''
   = JArr [JObj [(''address'', JStr ''3PAbc''), (''encryptedSeed'', JStr ''U2Fsd''),
        (''settings'', JObj [(''encryptionRounds'', JNum 1 3), (''pinnedAssetIdList'', JArr []),
                             (''hasBackup'', JBool True), (''theme'', JNull)])],
        JNum 5 (- 1), JNum 1 21, JNum (- 125) (- 5), JNum 15 (- 8), JNum 0 0] \<and>
   storage (save (new_world Map.empty) ''rates''
     (JArr [JNum 1 3, JNum 5 (- 1), JNum 1 21, JNum (- 125) (- 5), JNum 15 (- 8), JNum 0 0]))
     ''rates''
   = Some ''[1000,0.5,1e+21,-0.00125,1.5e-7,0]''"
proof -
  let ?v = "JArr [JObj [(''address'', JStr ''3PAbc''), (''encryptedSeed'', JStr ''U2Fsd''),
        (''settings'', JObj [(''encryptionRounds'', JNum 1 3), (''pinnedAssetIdList'', JArr []),
                             (''hasBackup'', JBool True), (''theme'', JNull)])],
        JNum 5 (- 1), JNum 1 21, JNum (- 125) (- 5), JNum 15 (- 8), JNum 0 0]"
  have h1: "serializable ?v" by simp
  have h2: "typeof ?v \<noteq> ''string''" by (simp add: typeof_def)
  have h3: "storage (save (new_world Map.empty) ''rates''
     (JArr [JNum 1 3, JNum 5 (- 1), JNum 1 21, JNum (- 125) (- 5), JNum 15 (- 8), JNum 0 0]))
     ''rates''
   = Some ''[1000,0.5,1e+21,-0.00125,1.5e-7,0]''"
    by code_simp
  from save_load_serializable_value [OF h1 h2] h1 h3 show ?thesis by (intro conjI)
qed

section \<open>The parser's length tests are always passed\<close>

lemma parse_chars_shorter: "parse_chars s = Some (x, r) \<Longrightarrow> length r < length s"
proof (induction s arbitrary: x r rule: length_induct)
  case (1 s)
  have IH: "length r' < length t" if "parse_chars t = Some (y, r')" "length t < length s" for t y r'
    using "1.IH" that by fastforce
  show ?case
  proof (cases s)
    case Nil
    with "1.prems" show ?thesis by simp
  next
    case (Cons c cs)
    with "1.prems" show ?thesis
      by (auto split: if_splits list.splits option.splits dest!: IH)
  qed
qed

lemma parse_int_part_shorter: "parse_int_part s = Some (ip, r) \<Longrightarrow> length r < length s"
  by (cases s)
     (auto simp add: parse_int_part_def less_Suc_eq_le length_dropWhile_le split: if_splits)

lemma parse_fraction_shorter:
  assumes "parse_fraction s = Some (fp, r)"
  shows "length r \<le> length s"
proof (cases s)
  case Nil
  with assms show ?thesis by (simp add: parse_fraction_def)
next
  case (Cons c cs)
  with assms show ?thesis
    using length_dropWhile_le [of is_digit cs]
    by (auto simp add: parse_fraction_def split: if_splits)
qed

lemma parse_exponent_shorter:
  assumes "parse_exponent s = Some (x, r)"
  shows "length r \<le> length s"
proof (cases s)
  case Nil
  with assms show ?thesis by (simp add: parse_exponent_def)
next
  case (Cons c cs)
  have "length (dropWhile is_digit t) \<le> Suc (length cs)" if "t = cs \<or> t = tl cs" for t
    using that length_dropWhile_le [of is_digit t] by (cases cs) auto
  with assms Cons show ?thesis
    by (auto simp add: parse_exponent_def Let_def split: if_splits)
qed

lemma parse_unsigned_shorter: "parse_unsigned s = Some (x, r) \<Longrightarrow> length r < length s"
  by (auto simp add: parse_unsigned_def split: option.splits
        dest!: parse_int_part_shorter parse_fraction_shorter parse_exponent_shorter)

lemma parse_number_shorter: "parse_number s = Some (v, r) \<Longrightarrow> length r < length s"
  by (cases s)
     (auto simp add: parse_number_def less_Suc_eq split: if_splits dest!: parse_unsigned_shorter)

lemma strip_prefix_shorter: "strip_prefix p s = Some r \<Longrightarrow> p \<noteq> [] \<Longrightarrow> length r < length s"
  by (cases p; cases s) (auto simp add: strip_prefix_def split: if_splits)

lemma skip_ws_shorter: "skip_ws s = c # cs \<Longrightarrow> length cs < length s"
  using length_dropWhile_le [of is_ws s] by (simp add: skip_ws_def)

lemma parse_shorter:
  "(\<forall>v r. parse_value s = Some (v, r) \<longrightarrow> length r < length s) \<and>
   (\<forall>vs r. parse_elements s = Some (vs, r) \<longrightarrow> length r < length s) \<and>
   (\<forall>ms r. parse_members s = Some (ms, r) \<longrightarrow> length r < length s)"
proof (induction s rule: length_induct)
  case (1 s)
  have IHe: "length r < length t" if "parse_elements t = Some (vs, r)" "length t < length s" for t vs r
    using "1.IH" that by fastforce
  have IHm: "length r < length t" if "parse_members t = Some (ms, r)" "length t < length s" for t ms r
    using "1.IH" that by fastforce
  have IHv: "length r < length t" if "parse_value t = Some (v, r)" "length t < length s" for t v r
    using "1.IH" that by fastforce
  have val: "length r < length s" if "parse_value s = Some (v, r)" for v r
    using that
    by (subst (asm) parse_value.simps)
       (auto split: list.splits if_splits
          dest!: skip_ws_shorter parse_chars_shorter parse_number_shorter
                 strip_prefix_shorter [of "''true''"] strip_prefix_shorter [of "''false''"]
                 strip_prefix_shorter [of "''null''"] IHe IHm)
  have el: "length r < length s" if "parse_elements s = Some (vs, r)" for vs r
    using that
    by (subst (asm) parse_elements.simps)
       (auto split: option.splits list.splits if_splits dest!: skip_ws_shorter val IHe)
  have mem: "length r < length s" if "parse_members s = Some (ms, r)" for ms r
    using that
    by (subst (asm) parse_members.simps)
       (auto split: option.splits list.splits if_splits
          dest!: skip_ws_shorter parse_chars_shorter IHm IHv)
  from val el mem show ?case by blast
qed

lemma parse_value_shorter: "parse_value s = Some (v, r) \<Longrightarrow> length r < length s"
  using parse_shorter by blast

text \<open>\<open>parse_elements\<close> and \<open>parse_members\<close> without their length tests.\<close>

lemma parse_elements_untested:
  "parse_elements s =
     (case parse_value s of
        None \<Rightarrow> None
      | Some (v, r) \<Rightarrow>
          (case skip_ws r of
             [] \<Rightarrow> None
           | d # r' \<Rightarrow>
               if d = CHR '','' then map_option (\<lambda>(vs, t). (v # vs, t)) (parse_elements r')
               else if d = CHR '']'' then Some ([v], r')
               else None))"
  by (subst parse_elements.simps)
     (auto split: option.splits list.splits dest!: parse_value_shorter skip_ws_shorter)

lemma parse_members_untested:
  "parse_members s =
     (case skip_ws s of
        [] \<Rightarrow> None
      | c # cs \<Rightarrow>
          if c \<noteq> CHR 0x22 then None
          else
            (case parse_chars cs of
               None \<Rightarrow> None
             | Some (k, r) \<Rightarrow>
                 (case skip_ws r of
                    [] \<Rightarrow> None
                  | d # r1 \<Rightarrow>
                      if d \<noteq> CHR '':'' then None
                      else
                        (case parse_value r1 of
                           None \<Rightarrow> None
                         | Some (v, r2) \<Rightarrow>
                             (case skip_ws r2 of
                                [] \<Rightarrow> None
                              | e # r3 \<Rightarrow>
                                  if e = CHR '','' then
                                    map_option (\<lambda>(ms, t). (add_member k v ms, t)) (parse_members r3)
                                  else if e = CHR ''}'' then Some ([(k, v)], r3)
                                  else None)))))"
  by (subst parse_members.simps)
     (auto split: option.splits list.splits
        dest!: parse_value_shorter parse_chars_shorter skip_ws_shorter)

section \<open>Properties of the gateway step\<close>

lemma map_of_replace:
  "map_of ps k = Some old \<Longrightarrow>
     map_of (map (\<lambda>(k', w). if k' = k then (k', v) else (k', w)) ps) k = Some v"
  by (induction ps) (auto split: if_splits)

lemma get_set_prop:
  "get_prop u k = Inr old \<Longrightarrow> old \<noteq> JUndefined \<Longrightarrow> get_prop (set_prop u k v) k = Inr v"
proof (cases u)
  case (JObj ps)
  assume "get_prop u k = Inr old" "old \<noteq> JUndefined"
  then have "map_of ps k = Some old" using JObj by (simp split: option.splits)
  then show ?thesis using JObj by (simp add: map_of_replace)
qed simp_all

lemma count_list_append: "count_list (xs @ ys) x = count_list xs x + count_list ys x"
  by (induction xs) simp_all

lemma count_list_absent: "x \<notin> set xs \<Longrightarrow> count_list xs x = 0"
  by (induction xs) auto

text \<open>
  The two ways the body of the loop can succeed: it leaves the record alone, and then
  a pinned-asset array, if there is one, holds the gateway id already; or it appends
  the id to a pinned-asset array that did not hold it.
\<close>

lemma addNewGateway_user_cases [consumes 1, case_names unchanged pushed]:
  assumes "addNewGateway_user g u = Inr u'"
  obtains
    (unchanged) "u' = u" "\<And>xs. pinnedAssetIdList u = Inr (JArr xs) \<Longrightarrow> JStr g \<in> set xs"
  | (pushed) s xs where "get_prop u ''settings'' = Inr s" "truthy s"
      "get_prop s ''pinnedAssetIdList'' = Inr (JArr xs)" "JStr g \<notin> set xs"
      "u' = set_prop u ''settings'' (set_prop s ''pinnedAssetIdList'' (JArr (xs @ [JStr g])))"
proof -
  from assms obtain s where s: "get_prop u ''settings'' = Inr s"
    by (auto simp add: addNewGateway_user_def split: sum.splits)
  define settings where "settings = (if truthy s then s else JObj [])"
  from assms s obtain idList where l: "get_prop settings ''pinnedAssetIdList'' = Inr idList"
    by (auto simp add: addNewGateway_user_def settings_def Let_def split: sum.splits)
  have pinned: "pinnedAssetIdList u = Inr idList"
    by (simp add: pinnedAssetIdList_def s l [unfolded settings_def])
  have body: "addNewGateway_user g u =
      (if truthy idList then
         (case array_includes idList g of
            Inl e \<Rightarrow> Inl e
          | Inr True \<Rightarrow> Inr u
          | Inr False \<Rightarrow>
              (case array_push idList g of
                 Inl e \<Rightarrow> Inl e
               | Inr idList' \<Rightarrow>
                   Inr (set_prop u ''settings'' (set_prop settings ''pinnedAssetIdList'' idList'))))
       else Inr u)"
    unfolding addNewGateway_user_def Let_def s sum.case settings_def [symmetric] l
    by (rule refl)
  consider (absent) "\<not> truthy idList"
    | (present) "truthy idList" "array_includes idList g = Inr True"
    | (appended) xs where "idList = JArr xs" "JStr g \<notin> set xs"
    using assms unfolding body
    by (cases idList)
       (auto simp add: array_includes_def array_push_def split: if_splits sum.splits bool.splits)
  then show thesis
  proof cases
    case absent
    then have "u' = u" using assms by (simp add: body)
    moreover have "idList \<noteq> JArr xs" for xs using absent by auto
    ultimately show thesis by (intro unchanged) (simp_all add: pinned)
  next
    case present
    then have "u' = u" using assms by (simp add: body)
    moreover have "JStr g \<in> set xs" if "idList = JArr xs" for xs
      using present(2) that by (simp add: array_includes_def)
    ultimately show thesis by (intro unchanged) (simp_all add: pinned)
  next
    case (appended xs)
    have st: "truthy s" and ss: "settings = s"
      using l appended(1) by (auto simp add: settings_def split: if_splits)
    have "u' = set_prop u ''settings'' (set_prop s ''pinnedAssetIdList'' (JArr (xs @ [JStr g])))"
      using assms appended by (simp add: body ss array_includes_def array_push_def)
    with s st l [unfolded ss appended(1)] appended(2) show thesis by (rule pushed)
  qed
qed

lemma addNewGateway_user_again:
  assumes "addNewGateway_user g u = Inr u'"
  shows "addNewGateway_user g u' = Inr u'"
  using assms
proof (cases rule: addNewGateway_user_cases)
  case unchanged
  with assms show ?thesis by simp
next
  case (pushed s xs)
  let ?l' = "JArr (xs @ [JStr g])"
  let ?s' = "set_prop s ''pinnedAssetIdList'' ?l'"
  have "s \<noteq> JUndefined" using pushed(2) by auto
  with pushed(1) have g1: "get_prop u' ''settings'' = Inr ?s'"
    unfolding pushed(5) by (rule get_set_prop)
  have g2: "get_prop ?s' ''pinnedAssetIdList'' = Inr ?l'"
    using pushed(3) by (rule get_set_prop) simp
  have ts: "truthy ?s'" using pushed(2) by (cases s) simp_all
  show ?thesis
    by (simp add: addNewGateway_user_def g1 g2 ts array_includes_def)
qed

lemma pinnedAssetIdList_pushed:
  assumes "get_prop u ''settings'' = Inr s" "truthy s"
    and "get_prop s ''pinnedAssetIdList'' = Inr (JArr xs)"
  shows "pinnedAssetIdList u = Inr (JArr xs)"
    and "pinnedAssetIdList (set_prop u ''settings'' (set_prop s ''pinnedAssetIdList'' l)) = Inr l"
proof -
  show "pinnedAssetIdList u = Inr (JArr xs)"
    using assms by (simp add: pinnedAssetIdList_def)
  let ?s' = "set_prop s ''pinnedAssetIdList'' l"
  have "s \<noteq> JUndefined" using assms(2) by auto
  with assms(1) have "get_prop (set_prop u ''settings'' ?s') ''settings'' = Inr ?s'"
    by (rule get_set_prop)
  moreover have "get_prop ?s' ''pinnedAssetIdList'' = Inr l"
    using assms(3) by (rule get_set_prop) simp
  moreover have "truthy ?s'" using assms(2) by (cases s) simp_all
  ultimately show
    "pinnedAssetIdList (set_prop u ''settings'' (set_prop s ''pinnedAssetIdList'' l)) = Inr l"
    by (simp add: pinnedAssetIdList_def)
qed

text \<open>
  C8. Take a user record on which the body of the loop succeeds, leaving \<open>u'\<close>. Running
  the body on \<open>u'\<close> again leaves \<open>u'\<close> as it is. When the record has a pinned-asset
  array, the array of \<open>u'\<close> is the old one if that held the gateway id, and otherwise
  the old one with the id appended (the old entries in their order, the id once); in
  every other case the record is unchanged.
\<close>

theorem addNewGateway_user_idempotent:
  assumes "addNewGateway_user g u = Inr u'"
  shows "addNewGateway_user g u' = Inr u' \<and>
         (case pinnedAssetIdList u of
            Inr (JArr xs) \<Rightarrow>
              pinnedAssetIdList u' = Inr (JArr (if JStr g \<in> set xs then xs else xs @ [JStr g])) \<and>
              (if JStr g \<in> set xs then u' = u
               else count_list (xs @ [JStr g]) (JStr g) = 1)
          | _ \<Rightarrow> u' = u)"
proof -
  have again: "addNewGateway_user g u' = Inr u'"
    using assms by (rule addNewGateway_user_again)
  from assms show ?thesis
  proof (cases rule: addNewGateway_user_cases)
    case unchanged
    then show ?thesis
      using again by (auto split: sum.splits jsval.splits)
  next
    case (pushed s xs)
    have "count_list (xs @ [JStr g]) (JStr g) = 1"
      using pushed(4) by (simp add: count_list_append count_list_absent)
    then show ?thesis
      using again pushed(4) pinnedAssetIdList_pushed [OF pushed(1,2,3)]
      by (simp add: pushed(5))
  qed
qed

theorem addNewGateway_user_idempotent_witness:
  "addNewGateway_user ''DASH''
     (JObj [(''address'', JStr ''3PAbc''),
            (''settings'', JObj [(''pinnedAssetIdList'', JArr [JStr ''WAVES'', JStr ''BTC''])])])
   = Inr (JObj [(''address'', JStr ''3PAbc''),
            (''settings'', JObj [(''pinnedAssetIdList'', JArr [JStr ''WAVES'', JStr ''BTC'', JStr ''DASH''])])]) \<and>
   addNewGateway_user ''DASH''
     (JObj [(''address'', JStr ''3PAbc''),
            (''settings'', JObj [(''pinnedAssetIdList'', JArr [JStr ''WAVES'', JStr ''BTC'', JStr ''DASH''])])])
   = Inr (JObj [(''address'', JStr ''3PAbc''),
            (''settings'', JObj [(''pinnedAssetIdList'', JArr [JStr ''WAVES'', JStr ''BTC'', JStr ''DASH''])])])"
proof -
  have h: "addNewGateway_user ''DASH''
     (JObj [(''address'', JStr ''3PAbc''),
            (''settings'', JObj [(''pinnedAssetIdList'', JArr [JStr ''WAVES'', JStr ''BTC''])])])
   = Inr (JObj [(''address'', JStr ''3PAbc''),
            (''settings'', JObj [(''pinnedAssetIdList'', JArr [JStr ''WAVES'', JStr ''BTC'', JStr ''DASH''])])])"
    by code_simp
  from addNewGateway_user_idempotent [OF h] h show ?thesis by simp
qed

section \<open>The gateway step as a whole, run twice\<close>

lemma add_member_serializable:
  assumes "distinct (map fst ms)" and "list_all (\<lambda>(k, v). serializable v) ms" and "serializable v"
  shows "distinct (map fst (add_member k v ms)) \<and>
         list_all (\<lambda>(k, v). serializable v) (add_member k v ms)"
proof -
  have "distinct (map fst (filter (\<lambda>(k', w). k' \<noteq> k) ms))"
    using assms(1) by (rule distinct_map_filter)
  moreover have "k \<notin> fst ` set (filter (\<lambda>(k', w). k' \<noteq> k) ms)" by auto
  moreover have "serializable (case map_of ms k of None \<Rightarrow> v | Some w \<Rightarrow> w)"
    using assms(2,3) by (auto simp add: list_all_iff split: option.splits dest!: map_of_SomeD)
  moreover have "list_all (\<lambda>(k, v). serializable v) (filter (\<lambda>(k', w). k' \<noteq> k) ms)"
    using assms(2) by (auto simp add: list_all_iff)
  ultimately show ?thesis by (simp add: add_member_def)
qed

text \<open>What the parser builds is serializable.\<close>

lemma strip_zeros_serializable:
  "strip_zeros m e = (s, x) \<Longrightarrow> (if s = 0 then x = 0 else s mod 10 \<noteq> 0)"
proof (induction m e rule: strip_zeros.induct)
  case (1 m e)
  show ?case
  proof (cases "m \<noteq> 0 \<and> m mod 10 = 0")
    case True
    then have "strip_zeros m e = strip_zeros (m div 10) (e + 1)"
      by (subst strip_zeros.simps) simp
    with True "1.IH" "1.prems" show ?thesis by simp
  next
    case False
    with "1.prems" show ?thesis
      by (subst (asm) strip_zeros.simps) (auto split: if_splits)
  qed
qed

lemma parse_number_serializable:
  assumes "parse_number s = Some (v, r)"
  shows "serializable v"
proof -
  from assms obtain m e t where v: "v = JNum (- int m) e \<or> v = JNum (int m) e"
    and "parse_unsigned t = Some ((m, e), r)"
    by (cases s) (auto simp add: parse_number_def split: if_splits)
  then obtain ds x where "strip_zeros ds x = (m, e)"
    by (auto simp add: parse_unsigned_def split: option.splits)
  then have "if m = 0 then e = 0 else m mod 10 \<noteq> 0" by (rule strip_zeros_serializable)
  moreover have "int m mod 10 \<noteq> 0" "(- int m) mod 10 \<noteq> 0" if "m mod 10 \<noteq> 0"
    using that by presburger+
  ultimately show ?thesis using v by (auto split: if_splits)
qed

lemma parse_serializable:
  "(\<forall>v r. parse_value s = Some (v, r) \<longrightarrow> serializable v) \<and>
   (\<forall>vs r. parse_elements s = Some (vs, r) \<longrightarrow> list_all serializable vs) \<and>
   (\<forall>ms r. parse_members s = Some (ms, r) \<longrightarrow>
      distinct (map fst ms) \<and> list_all (\<lambda>(k, v). serializable v) ms)"
proof (induction s rule: length_induct)
  case (1 s)
  have IHe: "list_all serializable vs" if "parse_elements t = Some (vs, r)" "length t < length s" for t vs r
    using "1.IH" that by fastforce
  have IHm: "distinct (map fst ms) \<and> list_all (\<lambda>(k, v). serializable v) ms"
    if "parse_members t = Some (ms, r)" "length t < length s" for t ms r
    using "1.IH" that by fastforce
  have IHv: "serializable v" if "parse_value t = Some (v, r)" "length t < length s" for t v r
    using "1.IH" that by fastforce
  have val: "serializable v" if "parse_value s = Some (v, r)" for v r
    using that
    by (subst (asm) parse_value.simps)
       (auto split: list.splits if_splits dest!: skip_ws_shorter
          dest: IHe IHm parse_number_serializable)
  have el: "list_all serializable vs" if "parse_elements s = Some (vs, r)" for vs r
  proof -
    from that obtain v r0 d r1 where
      parts: "parse_value s = Some (v, r0)" "skip_ws r0 = d # r1"
      and rest: "(d = CHR '','' \<and> length r1 < length s \<and>
                  (\<exists>vs'. parse_elements r1 = Some (vs', r) \<and> vs = v # vs')) \<or>
                 (d = CHR '']'' \<and> vs = [v])"
      by (subst (asm) parse_elements.simps)
         (auto split: option.splits list.splits if_splits)
    have v: "serializable v" using parts(1) by (rule val)
    from rest show ?thesis
    proof
      assume "d = CHR '','' \<and> length r1 < length s \<and>
                  (\<exists>vs'. parse_elements r1 = Some (vs', r) \<and> vs = v # vs')"
      then obtain vs' where pe: "parse_elements r1 = Some (vs', r)" "length r1 < length s"
        and vs: "vs = v # vs'"
        by blast
      from pe have "list_all serializable vs'" by (rule IHe)
      then show ?thesis using v by (simp add: vs)
    next
      assume "d = CHR '']'' \<and> vs = [v]"
      then show ?thesis using v by simp
    qed
  qed
  have mem: "distinct (map fst ms) \<and> list_all (\<lambda>(k, v). serializable v) ms"
    if "parse_members s = Some (ms, r)" for ms r
  proof -
    from that obtain c cs k r0 d r1 v r2 e r3 where
      parts: "skip_ws s = c # cs" "parse_chars cs = Some (k, r0)" "skip_ws r0 = d # r1"
        "length r1 < length s" "parse_value r1 = Some (v, r2)" "skip_ws r2 = e # r3"
      and rest: "(e = CHR '','' \<and> length r3 < length s \<and>
                  (\<exists>ms'. parse_members r3 = Some (ms', r) \<and> ms = add_member k v ms')) \<or>
                 (e = CHR ''}'' \<and> ms = [(k, v)])"
      by (subst (asm) parse_members.simps)
         (auto split: option.splits list.splits if_splits)
    have v: "serializable v" using parts(5,4) by (rule IHv)
    from rest show ?thesis
    proof
      assume "e = CHR '','' \<and> length r3 < length s \<and>
                  (\<exists>ms'. parse_members r3 = Some (ms', r) \<and> ms = add_member k v ms')"
      then obtain ms' where pm: "parse_members r3 = Some (ms', r)" "length r3 < length s"
        and ms: "ms = add_member k v ms'"
        by blast
      from pm have "distinct (map fst ms') \<and> list_all (\<lambda>(k, v). serializable v) ms'"
        by (rule IHm)
      then show ?thesis
        unfolding ms using v by (intro add_member_serializable) simp_all
    next
      assume "e = CHR ''}'' \<and> ms = [(k, v)]"
      then show ?thesis using v by simp
    qed
  qed
  from val el mem show ?case by blast
qed

lemma JSON_parse_serializable: "JSON_parse s = Some v \<Longrightarrow> serializable v"
  using parse_serializable [of s]
  by (auto simp add: JSON_parse_def split: option.splits if_splits)

lemma load_serializable: "serializable (load w k)"
  by (cases "storage w k")
     (auto simp add: load_missing load_stored split: option.splits dest: JSON_parse_serializable)

lemma list_all_replace:
  "list_all (\<lambda>(k, w). P w) ps \<Longrightarrow> P v \<Longrightarrow>
     list_all (\<lambda>(k, w). P w) (map (\<lambda>(k', w). if k' = k then (k', v) else (k', w)) ps)"
  by (induction ps) (auto split: if_splits)

lemma map_fst_replace:
  "map fst (map (\<lambda>(k', w). if k' = k then (k', v) else (k', w)) ps) = map fst ps"
  by (induction ps) auto

lemma serializable_set_prop:
  "serializable u \<Longrightarrow> serializable v \<Longrightarrow> serializable (set_prop u k v)"
proof (cases u)
  case (JObj ps)
  assume u: "serializable u" and v: "serializable v"
  let ?ps' = "map (\<lambda>(k', w). if k' = k then (k', v) else (k', w)) ps"
  have "list_all (\<lambda>(k, v). serializable v) ?ps'"
    using u v JObj by (intro list_all_replace) simp_all
  moreover have "distinct (map fst ?ps')"
    using u JObj by (simp only: map_fst_replace) simp
  ultimately show ?thesis
    using JObj by (simp del: map_map)
qed simp_all

lemma serializable_get_prop:
  "serializable u \<Longrightarrow> get_prop u k = Inr x \<Longrightarrow> x \<noteq> JUndefined \<Longrightarrow> serializable x"
  by (cases u) (auto simp add: list_all_iff split: option.splits dest!: map_of_SomeD)

lemma addNewGateway_user_serializable:
  assumes "serializable u" and "addNewGateway_user g u = Inr u'"
  shows "serializable u'"
  using assms(2)
proof (cases rule: addNewGateway_user_cases)
  case unchanged
  with assms(1) show ?thesis by simp
next
  case (pushed s xs)
  have s: "serializable s"
    using assms(1) pushed(1) by (rule serializable_get_prop) (use pushed(2) in auto)
  then have "serializable (JArr xs)"
    using pushed(3) by (rule serializable_get_prop) simp
  then have "serializable (JArr (xs @ [JStr g]))" by simp
  with s have "serializable (set_prop s ''pinnedAssetIdList'' (JArr (xs @ [JStr g])))"
    by (rule serializable_set_prop)
  with assms(1) show ?thesis
    unfolding pushed(5) by (rule serializable_set_prop)
qed

lemma map_throwing_again:
  assumes "\<And>x y. f x = Inr y \<Longrightarrow> f y = Inr y"
  shows "map_throwing f xs = Inr ys \<Longrightarrow> map_throwing f ys = Inr ys"
proof (induction xs arbitrary: ys)
  case Nil
  then show ?case by simp
next
  case (Cons x xs)
  then show ?case
    by (auto split: sum.splits dest: assms)
qed

lemma map_throwing_keeps:
  assumes "\<And>x y. P x \<Longrightarrow> f x = Inr y \<Longrightarrow> P y"
  shows "list_all P xs \<Longrightarrow> map_throwing f xs = Inr ys \<Longrightarrow> list_all P ys"
proof (induction xs arbitrary: ys)
  case Nil
  then show ?case by simp
next
  case (Cons x xs)
  then show ?case
    by (auto split: sum.splits dest: assms)
qed

text \<open>
  When the gateway step fulfils, running it again fulfils too and writes back the very
  text the first run wrote: the backend is the same after the second run.
\<close>

lemma addNewGateway_twice:
  assumes "addNewGateway w g = Inr w'"
  shows "\<exists>w''. addNewGateway w' g = Inr w'' \<and> storage w'' = storage w'"
proof -
  from assms obtain users users' where
    users: "default_arg (load w ''userList'') (JArr []) = JArr users"
    and run: "map_throwing (addNewGateway_user g) users = Inr users'"
    and w': "w' = save w ''userList'' (JArr users')"
    by (auto simp add: addNewGateway_def split: jsval.splits sum.splits)
  have "serializable (default_arg (load w ''userList'') (JArr []))"
    using load_serializable [of w "''userList''"] by (simp add: default_arg_def)
  then have "list_all serializable users" by (simp add: users)
  then have "list_all serializable users'"
    using run by (rule map_throwing_keeps [rotated]) (rule addNewGateway_user_serializable)
  then have "load w' ''userList'' = JArr users'"
    unfolding w' by (intro load_save_ser) (simp_all add: typeof_def)
  moreover have "map_throwing (addNewGateway_user g) users' = Inr users'"
    using run by (rule map_throwing_again [rotated]) (rule addNewGateway_user_again)
  ultimately have "addNewGateway w' g = Inr (save w' ''userList'' (JArr users'))"
    by (simp add: addNewGateway_def default_arg_def)
  moreover have "storage (save w' ''userList'' (JArr users')) = storage w'"
    by (simp add: w')
  ultimately show ?thesis by blast
qed

section \<open>Properties of the migration steps\<close>

lemma replay_append: "replay (xs @ ys) ls = replay ys (replay xs ls)"
proof (induction xs arbitrary: ls)
  case Nil
  then show ?case by simp
next
  case (Cons ev xs)
  show ?case by (cases ev) (simp_all only: append_Cons replay.simps Cons.IH)
qed

lemma step_write_not_step_event: "step_write ev \<Longrightarrow> \<not> step_event ev"
  by (cases ev) (simp_all add: step_write_def step_event_def)

lemma filter_step_event_writes: "list_all step_write evs \<Longrightarrow> filter step_event evs = []"
  by (induction evs) (simp_all add: step_write_not_step_event)

lemma replay_keeps_other_keys:
  "list_all step_write evs \<Longrightarrow> Cleared \<notin> set evs \<Longrightarrow> k \<noteq> ''userList'' \<Longrightarrow> replay evs ls k = ls k"
proof (induction evs arbitrary: ls)
  case Nil
  then show ?case by simp
next
  case (Cons ev evs)
  then show ?case by (cases ev) (simp_all add: step_write_def)
qed

lemma read_cong: "ls k = ls' k \<Longrightarrow> read ls k = read ls' k"
  by (simp add: read_def getItem_def)

lemma quietI:
  assumes "\<And>w w'. f w = Inr w' \<Longrightarrow>
             w' = w \<or> (\<exists>v. w' = save w ''userList'' v) \<or>
             (truthy (load w ''Wavesmainnet'') \<and> (\<exists>v. w' = save (clear w) ''userList'' v))"
  shows "quiet f"
  unfolding quiet_def
proof (intro allI impI)
  fix w w' assume "f w = Inr w'"
  from assms [OF this] consider
      (same) "w' = w"
    | (saved) v where "w' = save w ''userList'' v"
    | (wiped) v where "truthy (load w ''Wavesmainnet'')" "w' = save (clear w) ''userList'' v"
    by blast
  then show "isNewDefer w' = isNewDefer w \<and>
        (\<exists>evs. trace w' = trace w @ evs \<and> list_all step_write evs \<and>
               storage w' = replay evs (storage w) \<and>
               (Cleared \<in> set evs \<longrightarrow> truthy (read (storage w) ''Wavesmainnet'')))"
  proof cases
    case same
    then show ?thesis by (intro conjI exI [of _ "[]"]) simp_all
  next
    case saved
    then show ?thesis
      by (intro conjI exI [of _ "[Saved ''userList'' (stringify v)]"])
         (simp_all add: step_write_def)
  next
    case wiped
    then show ?thesis
      by (intro conjI exI [of _ "[Cleared, Saved ''userList'' (stringify v)]"])
         (simp_all add: step_write_def load_def)
  qed
qed

lemma quiet_migrate_1_0_0: "quiet migrate_1_0_0"
  by (rule quietI)
     (auto simp add: migrate_1_0_0_def Let_def split: if_splits sum.splits jsval.splits)

lemma quiet_migrate_beta_23: "quiet (migrate_beta_23 E)"
  by (rule quietI) (auto simp add: migrate_beta_23_def split: sum.splits jsval.splits)

lemma quiet_migrate_beta_47: "quiet (migrate_beta_47 E)"
  by (rule quietI) (auto simp add: migrate_beta_47_def split: sum.splits jsval.splits)

lemma quiet_addNewGateway: "quiet (\<lambda>w. addNewGateway w g)"
  by (rule quietI) (auto simp add: addNewGateway_def split: sum.splits jsval.splits)

lemma quiet_MIGRATION_MAP: "(k, f) \<in> set (MIGRATION_MAP E) \<Longrightarrow> quiet f"
  by (auto simp add: MIGRATION_MAP_def quiet_migrate_1_0_0 quiet_migrate_beta_23
        quiet_migrate_beta_47 quiet_addNewGateway)

lemma quiet_registered: "\<forall>(k, f) \<in> set (MIGRATION_MAP E). quiet f"
  using quiet_MIGRATION_MAP by blast

text \<open>
  What a chain of bound steps adds to the trace: the step events of a fulfilled run of
  all the steps, or of a fulfilled run of the steps before the one that rejects and then
  the rejection, which is the last event.
\<close>

lemma chain_run:
  assumes "\<And>k f. (k, f) \<in> set m \<Longrightarrow> quiet f"
    and "bind_all m vs = Some fs"
    and "chainCall fs w = (out, w')"
  shows "isNewDefer w' = isNewDefer w \<and>
     (\<exists>evs. trace w' = trace w @ evs \<and>
        list_all (\<lambda>ev. step_write ev \<or> step_event ev) evs \<and>
        storage w' = replay evs (storage w) \<and>
        (Cleared \<in> set evs \<longrightarrow> truthy (read (storage w) ''Wavesmainnet'')) \<and>
        (out = None \<longrightarrow> filter step_event evs = fulfilled_run vs) \<and>
        (\<forall>e. out = Some e \<longrightarrow>
           (\<exists>ran k rest. vs = ran @ k # rest \<and>
              filter step_event evs = fulfilled_run ran @ [Started k, Settled k (Some e)] \<and>
              last evs = Settled k (Some e))))"
  using assms(2,3)
proof (induction vs arbitrary: fs w)
  case Nil
  then show ?case by (intro conjI exI [of _ "[]"]) auto
next
  case (Cons v vs)
  from Cons.prems(1) obtain f fs' where
    f: "map_of m v = Some f" and fs': "bind_all m vs = Some fs'" and fs: "fs = bound v f # fs'"
    by (auto split: option.splits)
  from f have "(v, f) \<in> set m" by (rule map_of_SomeD)
  then have q: "quiet f" by (rule assms(1))
  define w1 where "w1 = w\<lparr>trace := trace w @ [Started v]\<rparr>"
  show ?case
  proof (cases "f w1")
    case (Inl e)
    then have "out = Some e" and w': "w' = w1\<lparr>trace := trace w1 @ [Settled v (Some e)]\<rparr>"
      using Cons.prems(2) by (auto simp add: fs bound_def w1_def Let_def)
    show ?thesis
    proof (intro conjI exI [of _ "[Started v, Settled v (Some e)]"])
      show "\<forall>e'. out = Some e' \<longrightarrow>
           (\<exists>ran k rest. v # vs = ran @ k # rest \<and>
              filter step_event [Started v, Settled v (Some e)] =
                fulfilled_run ran @ [Started k, Settled k (Some e')] \<and>
              last [Started v, Settled v (Some e)] = Settled k (Some e'))"
        using \<open>out = Some e\<close>
        by (intro allI impI exI [of _ "[]"] exI [of _ v] exI [of _ vs])
           (simp add: step_event_def)
    qed (simp_all add: w' w1_def step_event_def \<open>out = Some e\<close>)
  next
    case (Inr w2)
    define w3 where "w3 = w2\<lparr>trace := trace w2 @ [Settled v None]\<rparr>"
    from Inr have run: "chainCall fs' w3 = (out, w')"
      using Cons.prems(2) by (auto simp add: fs bound_def w1_def w3_def Let_def)
    from q Inr obtain evs1 where
      d1: "isNewDefer w2 = isNewDefer w1" and t1: "trace w2 = trace w1 @ evs1"
      and a1: "list_all step_write evs1" and s1: "storage w2 = replay evs1 (storage w1)"
      and c1: "Cleared \<in> set evs1 \<longrightarrow> truthy (read (storage w1) ''Wavesmainnet'')"
      unfolding quiet_def by blast
    from Cons.IH [OF fs' run] obtain evs2 where
      d2: "isNewDefer w' = isNewDefer w3" and t2: "trace w' = trace w3 @ evs2"
      and a2: "list_all (\<lambda>ev. step_write ev \<or> step_event ev) evs2"
      and s2: "storage w' = replay evs2 (storage w3)"
      and c2: "Cleared \<in> set evs2 \<longrightarrow> truthy (read (storage w3) ''Wavesmainnet'')"
      and ok2: "out = None \<longrightarrow> filter step_event evs2 = fulfilled_run vs"
      and rej2: "\<forall>e. out = Some e \<longrightarrow>
           (\<exists>ran k rest. vs = ran @ k # rest \<and>
              filter step_event evs2 = fulfilled_run ran @ [Started k, Settled k (Some e)] \<and>
              last evs2 = Settled k (Some e))"
      by blast
    let ?evs = "Started v # evs1 @ Settled v None # evs2"
    have f1: "filter step_event evs1 = []" using a1 by (rule filter_step_event_writes)
    have a1': "list_all (\<lambda>ev. step_write ev \<or> step_event ev) evs1"
      using a1 by (simp add: list_all_iff)
    have st: "storage w3 = replay evs1 (storage w)"
      using s1 by (simp add: w3_def w1_def)
    show ?thesis
    proof (intro conjI exI [of _ ?evs])
      show "isNewDefer w' = isNewDefer w" using d1 d2 by (simp add: w3_def w1_def)
      show "trace w' = trace w @ ?evs" using t1 t2 by (simp add: w3_def w1_def)
      show "list_all (\<lambda>ev. step_write ev \<or> step_event ev) ?evs"
        using a1' a2 by (simp add: step_event_def)
      show "storage w' = replay ?evs (storage w)"
        using s2 st by (simp add: replay_append)
      show "Cleared \<in> set ?evs \<longrightarrow> truthy (read (storage w) ''Wavesmainnet'')"
      proof
        assume "Cleared \<in> set ?evs"
        then consider "Cleared \<in> set evs1" | "Cleared \<notin> set evs1" "Cleared \<in> set evs2"
          by auto
        then show "truthy (read (storage w) ''Wavesmainnet'')"
        proof cases
          case 1
          with c1 show ?thesis by (simp add: w1_def)
        next
          case 2
          with c2 have "truthy (read (storage w3) ''Wavesmainnet'')" by simp
          moreover have "storage w3 ''Wavesmainnet'' = storage w ''Wavesmainnet''"
            using replay_keeps_other_keys [OF a1 2(1), of "''Wavesmainnet''" "storage w"]
            by (simp add: st)
          then have "read (storage w3) ''Wavesmainnet'' = read (storage w) ''Wavesmainnet''"
            by (rule read_cong)
          ultimately show ?thesis by simp
        qed
      qed
      show "out = None \<longrightarrow> filter step_event ?evs = fulfilled_run (v # vs)"
        using ok2 f1 by (simp add: step_event_def)
      show "\<forall>e. out = Some e \<longrightarrow>
           (\<exists>ran k rest. v # vs = ran @ k # rest \<and>
              filter step_event ?evs = fulfilled_run ran @ [Started k, Settled k (Some e)] \<and>
              last ?evs = Settled k (Some e))"
      proof (intro allI impI)
        fix e assume "out = Some e"
        with rej2 obtain ran k rest where
          "vs = ran @ k # rest"
          "filter step_event evs2 = fulfilled_run ran @ [Started k, Settled k (Some e)]"
          "last evs2 = Settled k (Some e)"
          by blast
        moreover from this(2) have "evs2 \<noteq> []" by auto
        ultimately show "\<exists>ran k rest. v # vs = ran @ k # rest \<and>
              filter step_event ?evs = fulfilled_run ran @ [Started k, Settled k (Some e)] \<and>
              last ?evs = Settled k (Some e)"
          using f1
          by (intro exI [of _ "v # ran"] exI [of _ k] exI [of _ rest])
             (simp add: step_event_def)
      qed
    qed
  qed
qed

section \<open>Properties of the migration runner\<close>

lemma rejected_step_event: "rejected ev \<Longrightarrow> step_event ev"
  by (cases ev) (simp_all add: rejected_def step_event_def)

lemma filter_rejected: "filter rejected (filter step_event evs) = filter rejected evs"
  by (induction evs) (auto dest: rejected_step_event)

lemma filter_rejected_fulfilled_run: "filter rejected (fulfilled_run vs) = []"
  by (induction vs) (simp_all add: rejected_def)

lemma started_filter: "started (filter step_event evs) = started evs"
proof (induction evs)
  case Nil
  then show ?case by simp
next
  case (Cons ev evs)
  then show ?case by (cases ev) (simp_all add: step_event_def)
qed

lemma started_append: "started (xs @ ys) = started xs @ started ys"
proof (induction xs)
  case Nil
  then show ?case by simp
next
  case (Cons ev xs)
  then show ?case by (cases ev) simp_all
qed

lemma started_fulfilled_run: "started (fulfilled_run vs) = vs"
  by (induction vs) simp_all

lemma one_at_a_time_filter: "one_at_a_time cur (filter step_event evs) = one_at_a_time cur evs"
proof (induction evs arbitrary: cur)
  case Nil
  then show ?case by simp
next
  case (Cons ev evs)
  then show ?case by (cases ev) (simp_all add: step_event_def)
qed

lemma one_at_a_time_fulfilled_run:
  "one_at_a_time None (fulfilled_run vs @ evs) = one_at_a_time None evs"
  by (induction vs) simp_all




lemma sorted_migrateFrom_spec: "sorted (map precedence (migrateFrom_spec precedence p ks))"
  by (simp add: migrateFrom_spec_def)

text \<open>The four ways the constructor can end.\<close>

lemma constructor_outcomes [consumes 1, case_names fresh unbound fulfilled rejected]:
  fixes m E ls W v vs
  assumes qs: "\<forall>(k, f) \<in> set m. quiet f"
  defines "W \<equiv> constructor m E ls"
    and "v \<equiv> load (new_world ls) ''lastVersion''"
  defines "vs \<equiv> migrateFrom E v (map fst m)"
  obtains
    (fresh) "\<not> truthy v" "trace W = [Saved ''lastVersion'' (version E), Resolved v]"
      "isNewDefer W = Some v" "storage W = replay (trace W) ls"
  | (unbound) "truthy v" "bind_all m vs = None" "trace W = [Saved ''lastVersion'' (version E)]"
      "isNewDefer W = None" "storage W = replay (trace W) ls"
  | (fulfilled) evs where "truthy v"
      "trace W = Saved ''lastVersion'' (version E) # evs @ [Resolved v]"
      "isNewDefer W = Some v"
      "list_all (\<lambda>ev. step_write ev \<or> step_event ev) evs"
      "filter step_event evs = fulfilled_run vs"
      "Cleared \<in> set evs \<longrightarrow> truthy (read ls ''Wavesmainnet'')"
      "storage W = replay (trace W) ls"
  | (rejected) evs ran k rest e where "truthy v"
      "trace W = Saved ''lastVersion'' (version E) # evs"
      "isNewDefer W = None"
      "list_all (\<lambda>ev. step_write ev \<or> step_event ev) evs"
      "vs = ran @ k # rest"
      "filter step_event evs = fulfilled_run ran @ [Started k, Settled k (Some e)]"
      "last evs = Settled k (Some e)"
      "Cleared \<in> set evs \<longrightarrow> truthy (read ls ''Wavesmainnet'')"
      "storage W = replay (trace W) ls"
proof -
  have q: "\<And>k f. (k, f) \<in> set m \<Longrightarrow> quiet f"
    using qs by blast
  define w2 where "w2 = (save (new_world ls) ''lastVersion'' (JStr (version E)))\<lparr>lastOpenVersion := v\<rparr>"
  have t2: "trace w2 = [Saved ''lastVersion'' (version E)]"
    and d2: "isNewDefer w2 = None"
    and s2: "storage w2 = ls(''lastVersion'' \<mapsto> version E)"
    by (simp_all add: w2_def new_world_def)
  have legacy: "read (storage w2) ''Wavesmainnet'' = read ls ''Wavesmainnet''"
    by (rule read_cong) (simp add: s2)
  show thesis
  proof (cases "truthy v")
    case False
    then have "W = resolve v w2"
      by (simp add: W_def constructor_def v_def w2_def Let_def)
    then have "trace W = [Saved ''lastVersion'' (version E), Resolved v]" "isNewDefer W = Some v"
      "storage W = replay (trace W) ls"
      by (simp_all add: resolve_def d2 t2 s2)
    with False show ?thesis by (rule fresh)
  next
    case True
    show ?thesis
    proof (cases "bind_all m vs")
      case None
      then have "W = w2"
        using True by (simp add: W_def constructor_def v_def vs_def w2_def Let_def)
      with True None show ?thesis by (intro unbound) (simp_all add: t2 d2 s2)
    next
      case (Some fs)
      obtain out w3 where run: "chainCall fs w2 = (out, w3)" by (cases "chainCall fs w2")
      have "isNewDefer w3 = isNewDefer w2 \<and>
         (\<exists>evs. trace w3 = trace w2 @ evs \<and>
            list_all (\<lambda>ev. step_write ev \<or> step_event ev) evs \<and>
            storage w3 = replay evs (storage w2) \<and>
            (Cleared \<in> set evs \<longrightarrow> truthy (read (storage w2) ''Wavesmainnet'')) \<and>
            (out = None \<longrightarrow> filter step_event evs = fulfilled_run vs) \<and>
            (\<forall>e. out = Some e \<longrightarrow>
               (\<exists>ran k rest. vs = ran @ k # rest \<and>
                  filter step_event evs = fulfilled_run ran @ [Started k, Settled k (Some e)] \<and>
                  last evs = Settled k (Some e))))"
        using q Some run by (rule chain_run)
      then obtain evs where
        d3: "isNewDefer w3 = isNewDefer w2" and t3: "trace w3 = trace w2 @ evs"
        and a3: "list_all (\<lambda>ev. step_write ev \<or> step_event ev) evs"
        and s3: "storage w3 = replay evs (storage w2)"
        and c3: "Cleared \<in> set evs \<longrightarrow> truthy (read (storage w2) ''Wavesmainnet'')"
        and ok3: "out = None \<longrightarrow> filter step_event evs = fulfilled_run vs"
        and rej3: "\<forall>e. out = Some e \<longrightarrow>
           (\<exists>ran k rest. vs = ran @ k # rest \<and>
              filter step_event evs = fulfilled_run ran @ [Started k, Settled k (Some e)] \<and>
              last evs = Settled k (Some e))"
        by blast
      have c3': "Cleared \<in> set evs \<longrightarrow> truthy (read ls ''Wavesmainnet'')"
        using c3 by (simp only: legacy)
      show ?thesis
      proof (cases out)
        case None
        then have "W = resolve v w3"
          using True Some run by (simp add: W_def constructor_def v_def vs_def w2_def Let_def)
        then have "trace W = Saved ''lastVersion'' (version E) # evs @ [Resolved v]"
          "isNewDefer W = Some v" "storage W = replay (trace W) ls"
          by (simp_all add: resolve_def d3 d2 t3 t2 s3 s2 replay_append)
        with True show ?thesis
          using a3 ok3 c3' None by (intro fulfilled [of evs]) simp_all
      next
        case (Some e)
        then have "W = w3"
          using True \<open>bind_all m vs = Some fs\<close> run
          by (simp add: W_def constructor_def v_def vs_def w2_def Let_def)
        moreover from rej3 Some obtain ran k rest where
          "vs = ran @ k # rest"
          "filter step_event evs = fulfilled_run ran @ [Started k, Settled k (Some e)]"
          "last evs = Settled k (Some e)"
          by blast
        ultimately show ?thesis
          using True a3 c3'
          by (intro rejected [of evs ran k rest e]) (simp_all add: d3 d2 t3 t2 s3 s2)
      qed
    qed
  qed
qed

text \<open>The trace accounts for the backend: replaying it gives the backend the run leaves.\<close>

lemma storage_constructor:
  assumes "\<forall>(k, f) \<in> set m. quiet f"
  shows "storage (constructor m E ls) = replay (trace (constructor m E ls)) ls"
  using assms by (cases rule: constructor_outcomes [where E = E and ls = ls]) simp_all

lemma load_version_tag:
  "ls ''lastVersion'' = Some prior \<Longrightarrow> JSON_parse prior = None \<Longrightarrow>
     load (new_world ls) ''lastVersion'' = JStr prior"
  by (simp add: load_stored new_world_def)










text \<open>
  C5, as the code has it. On a fresh install the readiness promise resolves with
  \<^verbatim>\<open>null\<close>, the value \<open>load\<close> gives for the missing key, and the trace holds no step:
  only the write of the current version and the resolution.
\<close>

theorem fresh_install_resolves_null:
  assumes "ls ''lastVersion'' = None"
  shows "onReady (constructor m E ls) = Some JNull \<and>
         trace (constructor m E ls) = [Saved ''lastVersion'' (version E), Resolved JNull] \<and>
         started (trace (constructor m E ls)) = []"
proof -
  have "load (new_world ls) ''lastVersion'' = JNull"
    using assms by (simp add: load_missing new_world_def)
  then show ?thesis
    by (simp add: constructor_def Let_def resolve_def onReady_def new_world_def)
qed

theorem fresh_install_resolves_null_witness:
  "(Map.empty :: localStorage) ''lastVersion'' = None \<and>
   onReady (constructor (MIGRATION_MAP example_env) example_env Map.empty) = Some JNull \<and>
   trace (constructor (MIGRATION_MAP example_env) example_env Map.empty)
     = [Saved ''lastVersion'' (version example_env), Resolved JNull]"
  using fresh_install_resolves_null [of Map.empty "MIGRATION_MAP example_env" example_env]
  by simp

text \<open>
  C5, as the claim states it, fails: on the empty backend the promise resolves, and not
  with \<^verbatim>\<open>undefined\<close>.
\<close>

theorem fresh_install_not_undefined:
  "onReady (constructor (MIGRATION_MAP example_env) example_env Map.empty) = Some JNull \<and>
   onReady (constructor (MIGRATION_MAP example_env) example_env Map.empty) \<noteq> Some JUndefined"
  by code_simp

text \<open>
  C2. When the promise of a step rejects, the readiness promise stays pending, the
  rejection is the last event of the run (no later step starts, and the step is not
  started again), and it is the only rejection.
\<close>

theorem rejected_step_blocks_readiness:
  assumes "list_ex rejected (trace (constructor (MIGRATION_MAP E) E ls))"
  shows "onReady (constructor (MIGRATION_MAP E) E ls) = None \<and>
         rejected (last (trace (constructor (MIGRATION_MAP E) E ls))) \<and>
         length (filter rejected (trace (constructor (MIGRATION_MAP E) E ls))) = 1"
proof -
  let ?W = "constructor (MIGRATION_MAP E) E ls"
  have rej: "filter rejected (trace ?W) \<noteq> []"
    using assms by (simp add: list_ex_iff filter_empty_conv)
  from quiet_registered [of E] show ?thesis
  proof (cases rule: constructor_outcomes [where E = E and ls = ls])
    case fresh
    with rej show ?thesis by (simp add: rejected_def)
  next
    case unbound
    with rej show ?thesis by (simp add: rejected_def)
  next
    case (fulfilled evs)
    have "filter rejected evs = filter rejected (fulfilled_run (migrateFrom E (load (new_world ls) ''lastVersion'') (map fst (MIGRATION_MAP E))))"
      using fulfilled(5) filter_rejected [of evs] by simp
    then have "filter rejected evs = []" by (simp add: filter_rejected_fulfilled_run)
    with rej fulfilled(2) show ?thesis by (simp add: rejected_def)
  next
    case (rejected evs ran k rest e)
    have "filter rejected evs = filter rejected (fulfilled_run ran @ [Started k, Settled k (Some e)])"
      using rejected(6) filter_rejected [of evs] by simp
    then have one: "filter rejected evs = [Settled k (Some e)]"
      by (simp add: filter_rejected_fulfilled_run rejected_def)
    then have "evs \<noteq> []" by auto
    then have "last (trace ?W) = Settled k (Some e)"
      using rejected(2,7) by simp
    then show ?thesis
      using rejected(2,3) one by (simp add: onReady_def rejected_def)
  qed
qed

theorem rejected_step_blocks_readiness_witness:
  "list_ex rejected (trace (constructor (MIGRATION_MAP example_env) example_env no_users_backend)) \<and>
   onReady (constructor (MIGRATION_MAP example_env) example_env no_users_backend) = None \<and>
   rejected (last (trace (constructor (MIGRATION_MAP example_env) example_env no_users_backend))) \<and>
   length (filter rejected (trace (constructor (MIGRATION_MAP example_env) example_env no_users_backend))) = 1"
proof -
  have h: "list_ex rejected (trace (constructor (MIGRATION_MAP example_env) example_env no_users_backend))"
    by code_simp
  from rejected_step_blocks_readiness [OF h] h show ?thesis by simp
qed




text \<open>
  C3. In whatever order the five steps are registered, the runner starts a step only
  when no step is running and the step that settles is the running one; and the steps
  start in ascending order of version: the started steps are an initial part of the
  ascending list of the applicable ones.
\<close>

theorem steps_run_one_at_a_time_ascending:
  fixes precedence :: "string \<Rightarrow> 'a::linorder"
  assumes reg: "set m = set (MIGRATION_MAP E)"
    and stored: "ls ''lastVersion'' = Some prior"
    and tag: "JSON_parse prior = None"
    and mf: "migrateFrom E (JStr prior) (map fst m) = migrateFrom_spec precedence prior (map fst m)"
  shows "one_at_a_time None (trace (constructor m E ls)) \<and>
         sorted (map precedence (started (trace (constructor m E ls)))) \<and>
         prefix (started (trace (constructor m E ls)))
                (migrateFrom_spec precedence prior (map fst m))"
proof -
  let ?W = "constructor m E ls"
  let ?vs = "migrateFrom_spec precedence prior (map fst m)"
  have v: "load (new_world ls) ''lastVersion'' = JStr prior"
    using stored tag by (rule load_version_tag)
  have "\<forall>(k, f) \<in> set m. quiet f"
    using quiet_registered [of E] by (simp add: reg)
  then show ?thesis
  proof (cases rule: constructor_outcomes [where E = E and ls = ls])
    case fresh
    then show ?thesis by simp
  next
    case unbound
    then show ?thesis by simp
  next
    case (fulfilled evs)
    have steps: "filter step_event (trace ?W) = fulfilled_run ?vs"
      using fulfilled(2,5) by (simp add: v mf step_event_def)
    then have "started (trace ?W) = ?vs"
      using started_filter [of "trace ?W"] by (simp add: started_fulfilled_run)
    moreover have "one_at_a_time None (trace ?W)"
      using one_at_a_time_filter [of None "trace ?W"] one_at_a_time_fulfilled_run [of ?vs "[]"]
      by (simp add: steps)
    ultimately show ?thesis by (simp add: sorted_migrateFrom_spec)
  next
    case (rejected evs ran k rest e)
    have vs: "?vs = ran @ k # rest"
      using rejected(5) by (simp add: v mf)
    have steps: "filter step_event (trace ?W) = fulfilled_run ran @ [Started k, Settled k (Some e)]"
      using rejected(2,6) by (simp add: step_event_def)
    then have st: "started (trace ?W) = ran @ [k]"
      using started_filter [of "trace ?W"] by (simp add: started_append started_fulfilled_run)
    have "sorted (map precedence (ran @ k # rest))"
      using sorted_migrateFrom_spec [of precedence prior "map fst m"] by (simp add: vs)
    then have "sorted (map precedence (ran @ [k]))"
      by (simp add: sorted_append)
    moreover have "one_at_a_time None (trace ?W)"
      using one_at_a_time_filter [of None "trace ?W"]
        one_at_a_time_fulfilled_run [of ran "[Started k, Settled k (Some e)]"]
      by (simp add: steps)
    ultimately show ?thesis by (simp add: st vs)
  qed
qed

theorem steps_run_one_at_a_time_ascending_witness:
  "set (rev (MIGRATION_MAP example_env)) = set (MIGRATION_MAP example_env) \<and>
   upgrade_backend ''lastVersion'' = Some ''1.0.0-beta.20'' \<and>
   JSON_parse ''1.0.0-beta.20'' = None \<and>
   one_at_a_time None (trace (constructor (rev (MIGRATION_MAP example_env)) example_env upgrade_backend)) \<and>
   sorted (map semver (started (trace (constructor (rev (MIGRATION_MAP example_env)) example_env upgrade_backend)))) \<and>
   started (trace (constructor (rev (MIGRATION_MAP example_env)) example_env upgrade_backend))
     = [''1.0.0-beta.23'', ''1.0.0-beta.35'', ''1.0.0-beta.40'', ''1.0.0-beta.47'', ''1.0.0'']"
proof -
  have h1: "set (rev (MIGRATION_MAP example_env)) = set (MIGRATION_MAP example_env)"
    by simp
  have h2: "upgrade_backend ''lastVersion'' = Some ''1.0.0-beta.20''"
    by (simp add: upgrade_backend_def)
  have h3: "JSON_parse ''1.0.0-beta.20'' = None" by code_simp
  have h4: "migrateFrom example_env (JStr ''1.0.0-beta.20'') (map fst (rev (MIGRATION_MAP example_env))) =
            migrateFrom_spec semver ''1.0.0-beta.20'' (map fst (rev (MIGRATION_MAP example_env)))"
    by (simp add: example_env_def)
  have h5: "started (trace (constructor (rev (MIGRATION_MAP example_env)) example_env upgrade_backend))
     = [''1.0.0-beta.23'', ''1.0.0-beta.35'', ''1.0.0-beta.40'', ''1.0.0-beta.47'', ''1.0.0'']"
    by code_simp
  from steps_run_one_at_a_time_ascending
         [where m = "rev (MIGRATION_MAP example_env)" and E = example_env
            and ls = upgrade_backend and precedence = semver, OF h1 h2 h3 h4]
       h1 h2 h3 h5
  show ?thesis by simp
qed




end
